theory Spec2Isabelle
  imports Complex_Main "HOL-Library.Word"
begin

unbundle bit_operations_syntax

section \<open>Data model of analyze\_video.py\<close>

text \<open>
  The elementary stream is a Python \<^verbatim>\<open>bytes\<close> object: a list of 8-bit words.
  Python integers are unbounded (\<^typ>\<open>int\<close>, or \<^typ>\<open>nat\<close> for positions and counts);
  Python floats are read as exact real numbers, so rounding is outside this development.
\<close>

type_synonym byte = "8 word"

datatype py_error = ZeroDivisionError

text \<open>The dictionary appended by \<^verbatim>\<open>parse_nal_units\<close>: keys type, data, size, offset.\<close>

record nal_unit =
  nu_type :: nat
  nu_data :: "byte list"
  nu_size :: int
  nu_offset :: nat

text \<open>The dictionary built by \<^verbatim>\<open>parse_slice_header\<close>.\<close>

record slice_info =
  si_nal_type :: nat
  si_slice_type :: "string option"
  si_frame_num :: "nat option"
  si_idr_pic_id :: "nat option"
  si_is_reference :: bool

text \<open>The entries of \<^verbatim>\<open>frame_info\<close> and the result of \<^verbatim>\<open>analyze_reference_frames\<close>.\<close>

record frame_info =
  fi_nal_type :: nat
  fi_slice_type :: "string option"
  fi_is_reference :: bool
  fi_size :: int

record ref_data =
  rd_has_sps :: bool
  rd_has_pps :: bool
  rd_frames :: "frame_info list"

text \<open>
  A frame as ffprobe reports it: the keys the analyzer reads, each possibly absent
  (\<^verbatim>\<open>frame.get(key, default)\<close>). \<^verbatim>\<open>pkt_size\<close> is kept as the integer that
  \<^verbatim>\<open>int(...)\<close> yields.
\<close>

record frame =
  fr_pict_type :: "string option"
  fr_pts :: "int option"
  fr_pkt_size :: "int option"

datatype pts_val = Pts int | NA

text \<open>An entry of a GOP: keys index, type, pts.\<close>

record gop_frame =
  gf_index :: nat
  gf_type :: string
  gf_pts :: pts_val

type_synonym gop = "gop_frame list"

section \<open>NAL scanner: parse\_nal\_units\<close>

text \<open>\<^verbatim>\<open>data.seek(pos); data.read(n)\<close> on a BytesIO: a negative count reads to the end.\<close>

definition read_bytes :: "byte list \<Rightarrow> nat \<Rightarrow> int \<Rightarrow> byte list" where
  "read_bytes buf pos n = (if n < 0 then drop pos buf else take (nat n) (drop pos buf))"

text \<open>The inner \<^verbatim>\<open>while True\<close> loop (lines 424--437): the value of \<^verbatim>\<open>next_start\<close>.\<close>

function find_next_start :: "byte list \<Rightarrow> nat \<Rightarrow> nat" where
  "find_next_start h264_data pos =
     (let chunk = read_bytes h264_data pos 4 in
      if length chunk < 3 then length h264_data
      else if take 4 chunk = [0, 0, 0, 1] \<or> take 3 chunk = [0, 0, 1] then pos
      else find_next_start h264_data (pos + 1))"
  by pat_completeness auto
termination
  by (relation "measure (\<lambda>(buf, pos). length buf - pos)") (auto simp: read_bytes_def)

declare find_next_start.simps [simp del]

lemma find_next_start_bounds:
  "pos \<le> length buf \<Longrightarrow>
   pos \<le> find_next_start buf pos \<and> find_next_start buf pos \<le> length buf"
proof (induction buf pos rule: find_next_start.induct)
  case (1 buf pos)
  let ?chunk = "read_bytes buf pos 4"
  show ?case
  proof (cases "length ?chunk < 3")
    case True
    then show ?thesis using 1(2) by (subst (1 2) find_next_start.simps) simp
  next
    case long: False
    then have lt: "pos + 1 \<le> length buf" by (auto simp: read_bytes_def)
    show ?thesis
    proof (cases "take 4 ?chunk = [0, 0, 0, 1] \<or> take 3 ?chunk = [0, 0, 1]")
      case True
      then show ?thesis using long 1(2) by (subst (1 2) find_next_start.simps) simp
    next
      case False
      have eq: "find_next_start buf pos = find_next_start buf (pos + 1)"
        using long False by (subst find_next_start.simps) simp
      from 1(1) [OF refl long False lt] show ?thesis
        unfolding eq by simp
    qed
  qed
qed

text \<open>
  The outer \<^verbatim>\<open>while True\<close> loop (lines 401--453), with the stream position and the
  list \<^verbatim>\<open>nal_units\<close> as its state. After the four bytes of \<^verbatim>\<open>chunk\<close> are read the
  position is \<^verbatim>\<open>start_pos + 4\<close>; for the 3-byte start code \<^verbatim>\<open>data.seek(-1, 1)\<close>
  moves it one byte back. \<^verbatim>\<open>if nal_data:\<close> is the test for a non-empty payload, whose
  first byte gives the type.
\<close>

function parse_loop :: "byte list \<Rightarrow> nat \<Rightarrow> nal_unit list \<Rightarrow> nal_unit list" where
  "parse_loop h264_data start_pos nal_units =
     (let chunk = read_bytes h264_data start_pos 4 in
      if length chunk < 4 then nal_units
      else if chunk = [0, 0, 0, 1] \<or> take 3 chunk = [0, 0, 1] then
        (let nal_start = (if chunk = [0, 0, 0, 1] then start_pos + 4 else start_pos + 4 - 1);
             next_start = find_next_start h264_data nal_start;
             nal_size = int next_start - int nal_start;
             nal_data = read_bytes h264_data nal_start nal_size
         in parse_loop h264_data next_start
              (case nal_data of
                 [] \<Rightarrow> nal_units
               | b # _ \<Rightarrow> nal_units @ [\<lparr>nu_type = unat (b AND 0x1F), nu_data = nal_data,
                                          nu_size = nal_size, nu_offset = nal_start\<rparr>]))
      else parse_loop h264_data (start_pos + 1) nal_units)"
  by pat_completeness auto
termination
proof (relation "measure (\<lambda>(buf, pos, acc). length buf - pos)", goal_cases)
  case 1
  show ?case by simp
next
  case (2 h264_data start_pos nal_units chunk nal_start next_start nal_size nal_data)
  then have "start_pos + 4 \<le> length h264_data"
    by (auto simp: read_bytes_def)
  moreover from this 2 have "start_pos < nal_start" "nal_start \<le> length h264_data"
    by auto
  ultimately show ?case
    using find_next_start_bounds [of nal_start h264_data] 2 by auto
next
  case 3
  then show ?case by (auto simp: read_bytes_def)
qed

declare parse_loop.simps [simp del]

definition parse_nal_units :: "byte list \<Rightarrow> nal_unit list" where
  "parse_nal_units h264_data = parse_loop h264_data 0 []"

section \<open>NAL classifier: parse\_slice\_header and analyze\_reference\_frames\<close>

definition parse_slice_header :: "byte list \<Rightarrow> slice_info option" where
  "parse_slice_header nal_data =
     (if length nal_data < 2 then None
      else
        let nal_type = unat (nal_data ! 0 AND 0x1F) in
        if nal_type \<notin> set [1, 2, 3, 4, 5] then None
        else
          let slice_info =
                \<lparr>si_nal_type = nal_type, si_slice_type = None, si_frame_num = None,
                 si_idr_pic_id = (if nal_type \<noteq> 5 then None else Some 0),
                 si_is_reference = (nal_type \<in> set [1, 2, 5])\<rparr>
          in Some (if nal_type = 5 then slice_info\<lparr>si_slice_type := Some ''I''\<rparr>
                   else if nal_type = 1 then slice_info\<lparr>si_slice_type := Some ''P/B''\<rparr>
                   else slice_info))"

text \<open>One iteration of the loop of \<^verbatim>\<open>analyze_reference_frames\<close> (lines 500--515).\<close>

definition ref_step :: "ref_data \<Rightarrow> nal_unit \<Rightarrow> ref_data" where
  "ref_step st nal =
     (let nal_type = nu_type nal in
      if nal_type = 7 then st\<lparr>rd_has_sps := True\<rparr>
      else if nal_type = 8 then st\<lparr>rd_has_pps := True\<rparr>
      else if nal_type \<in> set [1, 2, 3, 4, 5] then
        (case parse_slice_header (nu_data nal) of
           None \<Rightarrow> st
         | Some slice_info \<Rightarrow>
             st\<lparr>rd_frames := rd_frames st @
                  [\<lparr>fi_nal_type = nal_type, fi_slice_type = si_slice_type slice_info,
                    fi_is_reference = si_is_reference slice_info, fi_size = nu_size nal\<rparr>]\<rparr>)
      else st)"

definition analyze_reference_frames :: "nal_unit list \<Rightarrow> ref_data" where
  "analyze_reference_frames nal_units =
     foldl ref_step \<lparr>rd_has_sps = False, rd_has_pps = False, rd_frames = []\<rparr> nal_units"

text \<open>
  The IDR test of the reference report (line 536): an entry is an IDR picture when its
  \<^verbatim>\<open>nal_type\<close> is 5.
\<close>

definition is_idr :: "slice_info \<Rightarrow> bool" where
  "is_idr info = (si_nal_type info = 5)"

section \<open>GOP segmenter: analyze\_gop\_structure\<close>

text \<open>
  The \<^verbatim>\<open>for i, frame in enumerate(frames)\<close> loop (lines 40--48), with the index, the
  list \<^verbatim>\<open>gops\<close> and \<^verbatim>\<open>current_gop\<close> as its state.
\<close>

fun gop_loop :: "nat \<Rightarrow> frame list \<Rightarrow> gop list \<Rightarrow> gop \<Rightarrow> gop list \<times> gop" where
  "gop_loop i [] gops current_gop = (gops, current_gop)"
| "gop_loop i (frame # frames) gops current_gop =
     (let frame_type = (case fr_pict_type frame of None \<Rightarrow> ''Unknown'' | Some t \<Rightarrow> t);
          pts = (case fr_pts frame of None \<Rightarrow> NA | Some v \<Rightarrow> Pts v)
      in if frame_type = ''I'' then
           gop_loop (i + 1) frames
             (if current_gop \<noteq> [] then gops @ [current_gop] else gops)
             [\<lparr>gf_index = i, gf_type = frame_type, gf_pts = pts\<rparr>]
         else
           gop_loop (i + 1) frames gops
             (current_gop @ [\<lparr>gf_index = i, gf_type = frame_type, gf_pts = pts\<rparr>]))"

definition analyze_gop_structure :: "frame list \<Rightarrow> gop list" where
  "analyze_gop_structure frames =
     (case gop_loop 0 frames [] [] of
        (gops, current_gop) \<Rightarrow> if current_gop \<noteq> [] then gops @ [current_gop] else gops)"

section \<open>Statistics aggregator\<close>

text \<open>Python's \<^verbatim>\<open>max\<close> and \<^verbatim>\<open>min\<close> of a list, called on non-empty lists only.\<close>

definition py_max :: "int list \<Rightarrow> int" where
  "py_max xs = fold max (tl xs) (hd xs)"

definition py_min :: "int list \<Rightarrow> int" where
  "py_min xs = fold min (tl xs) (hd xs)"

text \<open>
  The expression \<^verbatim>\<open>total_bits / duration if duration > 0 else 0\<close> of lines 99 and 728.
\<close>

definition avg_bitrate_expr :: "int \<Rightarrow> real \<Rightarrow> real" where
  "avg_bitrate_expr total_bits duration =
     (if duration > 0 then real_of_int total_bits / duration else 0)"

text \<open>
  The values \<^verbatim>\<open>print_bitrate_analysis\<close> computes before printing them (lines 90--112);
  \<^verbatim>\<open>None\<close> is the early return after ``No frame data available''. A frame rate of
  zero raises in the division of line 98.
\<close>

record bitrate_report =
  br_total_bits :: int
  br_duration :: real
  br_avg_bitrate :: real
  br_max_frame_bitrate :: int
  br_min_frame_bitrate :: int

definition print_bitrate_analysis :: "int list \<Rightarrow> int \<Rightarrow> py_error + bitrate_report option" where
  "print_bitrate_analysis frame_sizes framerate =
     (if frame_sizes = [] then Inr None
      else
        let frame_bits = map (\<lambda>size. size * 8) frame_sizes;
            total_bits = sum_list frame_bits
        in if framerate = 0 then Inl ZeroDivisionError
           else
             let duration = real (length frame_sizes) / real_of_int framerate;
                 avg_bitrate = avg_bitrate_expr total_bits duration;
                 max_frame_bitrate = py_max frame_bits * framerate;
                 min_frame_bitrate = py_min frame_bits * framerate
             in Inr (Some \<lparr>br_total_bits = total_bits, br_duration = duration,
                             br_avg_bitrate = avg_bitrate,
                             br_max_frame_bitrate = max_frame_bitrate,
                             br_min_frame_bitrate = min_frame_bitrate\<rparr>))"

text \<open>The reference ratio of the summary (lines 734--738).\<close>

definition summary_ref_ratio :: "frame_info list \<Rightarrow> real" where
  "summary_ref_ratio ref_frames =
     (if ref_frames \<noteq> [] then
        let total_ref = length (filter fi_is_reference ref_frames)
        in (real total_ref / real (length ref_frames)) * 100
      else 0)"

text \<open>
  The summary block of \<^verbatim>\<open>analyze_video\<close> (lines 726--748) alone, from the frame
  sizes, the GOPs and the classified slices computed before it. The reports that
  \<^verbatim>\<open>analyze_video\<close> runs before this block, and the error they can raise, are in
  \<^verbatim>\<open>analyze_video\<close> below.
\<close>

record summary =
  sm_avg_bitrate :: real
  sm_avg_gop_size :: real
  sm_peak_frame_mbps :: real
  sm_i_frame_count :: nat
  sm_ref_ratio :: real

definition video_summary ::
  "int list \<Rightarrow> gop list \<Rightarrow> frame_info list \<Rightarrow> int \<Rightarrow> py_error + summary option" where
  "video_summary frame_sizes gops ref_frames framerate =
     (if frame_sizes \<noteq> [] \<and> gops \<noteq> [] then
        if framerate = 0 then Inl ZeroDivisionError
        else
          let duration = real (length frame_sizes) / real_of_int framerate;
              avg_bitrate = avg_bitrate_expr (sum_list frame_sizes * 8) duration;
              avg_gop_size =
                (if gops \<noteq> [] then real (sum_list (map length gops)) / real (length gops)
                 else 0);
              peak_frame_mbps =
                (if frame_sizes \<noteq> [] then real_of_int (py_max frame_sizes * 8 * framerate) / 1000000
                 else 0);
              i_frame_count = length (filter (\<lambda>frame. gf_type frame = ''I'') (concat gops));
              ref_ratio = summary_ref_ratio ref_frames
          in Inr (Some \<lparr>sm_avg_bitrate = avg_bitrate, sm_avg_gop_size = avg_gop_size,
                          sm_peak_frame_mbps = peak_frame_mbps, sm_i_frame_count = i_frame_count,
                          sm_ref_ratio = ref_ratio\<rparr>)
      else Inr None)"

text \<open>
  The counts and the ratio \<^verbatim>\<open>print_reference_analysis\<close> computes (lines 530--547);
  \<^verbatim>\<open>None\<close> is the early return after ``No frame data found''.
\<close>

record reference_report =
  rr_total :: nat
  rr_idr_count :: nat
  rr_non_idr_ref_count :: nat
  rr_non_ref_count :: nat
  rr_ref_ratio :: real

definition print_reference_analysis :: "ref_data \<Rightarrow> reference_report option" where
  "print_reference_analysis ref_data =
     (let frames = rd_frames ref_data in
      if frames = [] then None
      else
        let idr_count = length (filter (\<lambda>f. fi_nal_type f = 5) frames);
            non_idr_ref_count =
              length (filter (\<lambda>f. fi_nal_type f \<in> set [1, 2] \<and> fi_is_reference f) frames);
            non_ref_count = length (filter (\<lambda>f. \<not> fi_is_reference f) frames);
            ref_frames = idr_count + non_idr_ref_count;
            ref_ratio =
              (if frames \<noteq> [] then (real ref_frames / real (length frames)) * 100 else 0)
        in Some \<lparr>rr_total = length frames, rr_idr_count = idr_count,
                   rr_non_idr_ref_count = non_idr_ref_count, rr_non_ref_count = non_ref_count,
                   rr_ref_ratio = ref_ratio\<rparr>)"

text \<open>
  A packet as ffprobe reports it; \<^verbatim>\<open>size\<close> is kept as the integer that
  \<^verbatim>\<open>int(...)\<close> yields. \<^verbatim>\<open>analyze_bitrate\<close> (lines 55--66) keeps the sizes of the
  video packets and their total.
\<close>

record packet =
  pk_codec_type :: "string option"
  pk_size :: "int option"

definition analyze_bitrate :: "packet list \<Rightarrow> int list \<times> int" where
  "analyze_bitrate packets =
     (let frame_sizes =
            map (\<lambda>packet. case pk_size packet of None \<Rightarrow> 0 | Some v \<Rightarrow> v)
              (filter (\<lambda>packet. pk_codec_type packet = Some ''video'') packets)
      in (frame_sizes, sum_list frame_sizes))"

text \<open>
  The values \<^verbatim>\<open>print_gop_analysis\<close> computes before printing them (lines 73--76);
  \<^verbatim>\<open>None\<close> when there is no GOP. With a GOP, a frame rate of zero raises in the
  division of line 76.
\<close>

record gop_report =
  gr_min :: int
  gr_max :: int
  gr_avg :: real
  gr_min_duration :: real
  gr_max_duration :: real

definition print_gop_analysis :: "gop list \<Rightarrow> int \<Rightarrow> py_error + gop_report option" where
  "print_gop_analysis gops framerate =
     (let gop_sizes = map (\<lambda>gop. int (length gop)) gops in
      if gop_sizes \<noteq> [] then
        if framerate = 0 then Inl ZeroDivisionError
        else Inr (Some \<lparr>gr_min = py_min gop_sizes, gr_max = py_max gop_sizes,
                        gr_avg = real_of_int (sum_list gop_sizes) / real (length gop_sizes),
                        gr_min_duration = real_of_int (py_min gop_sizes) / real_of_int framerate,
                        gr_max_duration = real_of_int (py_max gop_sizes) / real_of_int framerate\<rparr>)
      else Inr None)"

text \<open>
  \<^verbatim>\<open>analyze_video\<close> (lines 706--748) from the frames and packets ffprobe returned and
  the stream ffmpeg returned (\<^verbatim>\<open>None\<close> when the extraction failed): the GOP report, the
  bitrate report, the reference analysis when the stream is non-empty, then the summary
  block. An error raised by a report ends the run.
\<close>

definition analyze_video ::
  "frame list \<Rightarrow> packet list \<Rightarrow> byte list option \<Rightarrow> int \<Rightarrow> py_error + summary option" where
  "analyze_video frames packets h264_data framerate =
     (let gops = analyze_gop_structure frames in
      case print_gop_analysis gops framerate of
        Inl e \<Rightarrow> Inl e
      | Inr _ \<Rightarrow>
          (let frame_sizes = fst (analyze_bitrate packets) in
           case print_bitrate_analysis frame_sizes framerate of
             Inl e \<Rightarrow> Inl e
           | Inr _ \<Rightarrow>
               (let ref_frames =
                      (case h264_data of
                         None \<Rightarrow> []
                       | Some d \<Rightarrow>
                           if d \<noteq> [] then rd_frames (analyze_reference_frames (parse_nal_units d))
                           else [])
                in video_summary frame_sizes gops ref_frames framerate)))"

text \<open>
  The statistics of \<^verbatim>\<open>analyze_quantization_and_motion\<close> (lines 609--634), from the
  frames ffprobe returned. \<^verbatim>\<open>stats\<close> is a dictionary from key to number;
  \<^verbatim>\<open>v ** 0.5\<close> on a non-negative number is the square root.
\<close>

definition analyze_quantization_and_motion :: "frame list \<Rightarrow> (string \<rightharpoonup> real)" where
  "analyze_quantization_and_motion frames =
     (let i_frames = filter (\<lambda>f. fr_pict_type f = Some ''I'') frames;
          p_frames = filter (\<lambda>f. fr_pict_type f = Some ''P'') frames;
          i_sizes = map (\<lambda>f. case fr_pkt_size f of None \<Rightarrow> 0 | Some v \<Rightarrow> v) i_frames;
          p_sizes = map (\<lambda>f. case fr_pkt_size f of None \<Rightarrow> 0 | Some v \<Rightarrow> v) p_frames;
          stats = Map.empty;
          stats =
            (if i_sizes \<noteq> [] then
               let i_frame_avg = real_of_int (sum_list i_sizes) / real (length i_sizes);
                   i_frame_std =
                     sqrt (sum_list (map (\<lambda>x. (real_of_int x - i_frame_avg) ^ 2) i_sizes)
                           / real (length i_sizes))
               in stats(''i_frame_avg'' \<mapsto> i_frame_avg, ''i_frame_std'' \<mapsto> i_frame_std,
                        ''i_frame_count'' \<mapsto> real (length i_sizes))
             else stats);
          stats =
            (if p_sizes \<noteq> [] then
               let p_frame_avg = real_of_int (sum_list p_sizes) / real (length p_sizes);
                   p_frame_std =
                     sqrt (sum_list (map (\<lambda>x. (real_of_int x - p_frame_avg) ^ 2) p_sizes)
                           / real (length p_sizes))
               in stats(''p_frame_avg'' \<mapsto> p_frame_avg, ''p_frame_std'' \<mapsto> p_frame_std,
                        ''p_frame_count'' \<mapsto> real (length p_sizes))
             else stats);
          all_sizes = i_sizes @ p_sizes
      in if all_sizes \<noteq> [] then
           let avg_size = real_of_int (sum_list all_sizes) / real (length all_sizes);
               std_size =
                 sqrt (sum_list (map (\<lambda>x. (real_of_int x - avg_size) ^ 2) all_sizes)
                       / real (length all_sizes))
           in stats(''size_cv'' \<mapsto> (if avg_size > 0 then std_size / avg_size else 0))
         else stats)"

section \<open>Notions used to state the properties\<close>

text \<open>A start code (\<^verbatim>\<open>00 00 01\<close> or \<^verbatim>\<open>00 00 00 01\<close>) begins at position \<open>p\<close>.\<close>

definition starts_code :: "byte list \<Rightarrow> nat \<Rightarrow> bool" where
  "starts_code buf p =
     (take 3 (drop p buf) = [0, 0, 1] \<or> take 4 (drop p buf) = [0, 0, 0, 1])"

text \<open>Length of the start code the scanner recognises at \<open>p\<close>: the 4-byte form first.\<close>

definition sc_len :: "byte list \<Rightarrow> nat \<Rightarrow> nat" where
  "sc_len buf p = (if take 4 (drop p buf) = [0, 0, 0, 1] then 4 else 3)"

text \<open>The unit appended (or not) for a payload that starts at \<open>ns\<close>.\<close>

definition emit :: "byte list \<Rightarrow> nat \<Rightarrow> nal_unit list" where
  "emit buf ns =
     (let nx = find_next_start buf ns in
      if nx = ns then []
      else [\<lparr>nu_type = unat (buf ! ns AND 0x1F), nu_data = take (nx - ns) (drop ns buf),
             nu_size = int nx - int ns, nu_offset = ns\<rparr>])"

text \<open>The bytes are a run of zero or more start codes and nothing else.\<close>

fun start_codes_only :: "byte list \<Rightarrow> bool" where
  "start_codes_only [] = True"
| "start_codes_only (a # b # c # r) =
     (a = 0 \<and> b = 0 \<and>
      (if c = 1 then start_codes_only r
       else c = 0 \<and> (case r of [] \<Rightarrow> False | d # r' \<Rightarrow> d = 1 \<and> start_codes_only r')))"
| "start_codes_only _ = False"

text \<open>Gaps and payloads laid back-to-back: gap, payload, gap, payload, ...\<close>

definition weave :: "byte list list \<Rightarrow> nal_unit list \<Rightarrow> byte list" where
  "weave gs us = concat (map2 (\<lambda>g u. g @ nu_data u) gs us)"

text \<open>
  \<open>x\<close> is the payloads of \<open>us\<close> in order, each preceded by a non-empty run of start
  codes, followed by a possibly empty run of start codes.
\<close>

definition reassembles :: "byte list \<Rightarrow> nal_unit list \<Rightarrow> bool" where
  "reassembles x us =
     (\<exists>gs tail. length gs = length us \<and> (\<forall>g\<in>set gs. g \<noteq> [] \<and> start_codes_only g) \<and>
        start_codes_only tail \<and> x = weave gs us @ tail)"

text \<open>
  The payload of \<open>u\<close> is the span of \<open>buf\<close> from the end of a start code to the start
  of the next start code, or to the end of \<open>buf\<close> when no start code follows.
\<close>

definition payload_span :: "byte list \<Rightarrow> nal_unit \<Rightarrow> bool" where
  "payload_span buf u =
     (let off = nu_offset u; end = off + length (nu_data u) in
      3 \<le> off \<and> take 3 (drop (off - 3) buf) = [0, 0, 1] \<and>
      nu_data u = take (length (nu_data u)) (drop off buf) \<and>
      nu_size u = int (length (nu_data u)) \<and>
      end \<le> length buf \<and>
      (\<forall>q. off \<le> q \<and> q < end \<longrightarrow> \<not> starts_code buf q) \<and>
      (if \<exists>q\<ge>off. starts_code buf q then starts_code buf end else end = length buf))"

text \<open>The standard deviation with divisor \<open>n\<close>, and the one with divisor \<open>n - 1\<close>.\<close>

definition mean :: "real list \<Rightarrow> real" where
  "mean xs = sum_list xs / real (length xs)"

definition population_std :: "real list \<Rightarrow> real" where
  "population_std xs = sqrt (mean (map (\<lambda>x. (x - mean xs) ^ 2) xs))"

definition sample_std :: "real list \<Rightarrow> real" where
  "sample_std xs = sqrt (sum_list (map (\<lambda>x. (x - mean xs) ^ 2) xs) / (real (length xs) - 1))"

text \<open>The sizes the detailed statistics are computed from, for one picture type.\<close>

definition sizes_of :: "string \<Rightarrow> frame list \<Rightarrow> int list" where
  "sizes_of t frames =
     map (\<lambda>f. case fr_pkt_size f of None \<Rightarrow> 0 | Some v \<Rightarrow> v)
       (filter (\<lambda>f. fr_pict_type f = Some t) frames)"

text \<open>The GOP entry of the frame at index \<open>i\<close>, and the entries of a frame list from index \<open>i\<close> on.\<close>

definition gop_entry :: "nat \<Rightarrow> frame \<Rightarrow> gop_frame" where
  "gop_entry i frame =
     \<lparr>gf_index = i,
      gf_type = (case fr_pict_type frame of None \<Rightarrow> ''Unknown'' | Some t \<Rightarrow> t),
      gf_pts = (case fr_pts frame of None \<Rightarrow> NA | Some v \<Rightarrow> Pts v)\<rparr>"

definition gop_entries :: "nat \<Rightarrow> frame list \<Rightarrow> gop_frame list" where
  "gop_entries i frames = map (\<lambda>(k, frame). gop_entry k frame) (enumerate i frames)"

text \<open>The entries \<^verbatim>\<open>analyze_reference_frames\<close> appends for one unit.\<close>

definition slice_entries :: "nal_unit \<Rightarrow> frame_info list" where
  "slice_entries nal =
     (if nu_type nal \<in> {1, 2, 3, 4, 5} then
        (case parse_slice_header (nu_data nal) of
           None \<Rightarrow> []
         | Some slice_info \<Rightarrow>
             [\<lparr>fi_nal_type = nu_type nal, fi_slice_type = si_slice_type slice_info,
               fi_is_reference = si_is_reference slice_info, fi_size = nu_size nal\<rparr>])
      else [])"

section \<open>Properties of the NAL scanner\<close>

lemma read_bytes_4: "read_bytes buf pos 4 = take 4 (drop pos buf)"
  by (simp add: read_bytes_def)

lemma starts_code_length: "starts_code buf p \<Longrightarrow> p + 3 \<le> length buf"
proof -
  assume "starts_code buf p"
  then consider "take 3 (drop p buf) = [0, 0, 1]" | "take 4 (drop p buf) = [0, 0, 0, 1]"
    unfolding starts_code_def by blast
  then show ?thesis
  proof cases
    case 1
    from arg_cong [OF this, of length] show ?thesis by simp
  next
    case 2
    from arg_cong [OF this, of length] show ?thesis by simp
  qed
qed

lemma find_next_start_stop:
  "length buf < pos + 3 \<Longrightarrow> find_next_start buf pos = length buf"
  by (subst find_next_start.simps) (auto simp: read_bytes_4 Let_def)

lemma find_next_start_hit:
  "starts_code buf pos \<Longrightarrow> find_next_start buf pos = pos"
  using starts_code_length [of buf pos]
  by (subst find_next_start.simps) (auto simp: read_bytes_4 starts_code_def Let_def)

lemma find_next_start_skip:
  "pos + 3 \<le> length buf \<Longrightarrow> \<not> starts_code buf pos \<Longrightarrow>
   find_next_start buf pos = find_next_start buf (pos + 1)"
  by (subst find_next_start.simps) (auto simp: read_bytes_4 starts_code_def Let_def)

lemma parse_loop_stop:
  "length buf < pos + 4 \<Longrightarrow> parse_loop buf pos acc = acc"
  by (subst parse_loop.simps) (auto simp: read_bytes_4 Let_def)

lemma parse_loop_skip:
  "pos + 4 \<le> length buf \<Longrightarrow> \<not> starts_code buf pos \<Longrightarrow>
   parse_loop buf pos acc = parse_loop buf (pos + 1) acc"
  by (subst parse_loop.simps) (auto simp: read_bytes_4 starts_code_def Let_def)

lemma parse_loop_hit:
  assumes "pos + 4 \<le> length buf" and "starts_code buf pos"
  shows "parse_loop buf pos acc =
         parse_loop buf (find_next_start buf (pos + sc_len buf pos))
           (acc @ emit buf (pos + sc_len buf pos))"
proof -
  let ?ns = "pos + sc_len buf pos"
  let ?nx = "find_next_start buf ?ns"
  have ns: "?ns \<le> length buf" using assms(1) by (simp add: sc_len_def)
  have nx: "?ns \<le> ?nx" "?nx \<le> length buf"
    using find_next_start_bounds [OF ns] by simp_all
  have len4: "length (take 4 (drop pos buf)) = 4" using assms(1) by simp
  have cond: "take 4 (drop pos buf) = [0, 0, 0, 1] \<or> take 3 (take 4 (drop pos buf)) = [0, 0, 1]"
    using assms(2) by (auto simp: starts_code_def)
  have nseq: "(if take 4 (drop pos buf) = [0, 0, 0, 1] then pos + 4 else pos + 4 - 1) = ?ns"
    by (simp add: sc_len_def)
  have data: "read_bytes buf ?ns (int ?nx - int ?ns) = take (?nx - ?ns) (drop ?ns buf)"
  proof -
    have "nat (int ?nx - int ?ns) = ?nx - ?ns" by (simp add: nat_diff_distrib')
    moreover have "\<not> int ?nx - int ?ns < 0" using nx(1) by simp
    ultimately show ?thesis unfolding read_bytes_def by presburger
  qed
  have "(case take (?nx - ?ns) (drop ?ns buf) of
           [] \<Rightarrow> acc
         | b # _ \<Rightarrow> acc @ [\<lparr>nu_type = unat (b AND 0x1F), nu_data = take (?nx - ?ns) (drop ?ns buf),
                              nu_size = int ?nx - int ?ns, nu_offset = ?ns\<rparr>])
        = acc @ emit buf ?ns"
  proof (cases "?nx = ?ns")
    case True
    then show ?thesis by (simp add: emit_def)
  next
    case False
    with nx have lt: "?ns < ?nx" by simp
    then obtain k where k: "?nx - ?ns = Suc k" by (metis Suc_diff_Suc)
    have "?ns < length buf" using lt nx(2) by simp
    then have "drop ?ns buf = buf ! ?ns # drop (Suc ?ns) buf"
      by (simp add: Cons_nth_drop_Suc)
    then have "take (?nx - ?ns) (drop ?ns buf) = buf ! ?ns # take k (drop (Suc ?ns) buf)"
      unfolding k by simp
    then show ?thesis using False by (simp add: emit_def Let_def)
  qed
  note body = this
  have not_short: "\<not> length (take 4 (drop pos buf)) < 4" using len4 by simp
  have cond': "take 4 (drop pos buf) = [0, 0, 0, 1] \<or> take 3 (take 4 (drop pos buf)) = [0, 0, 1]"
    by (rule cond)
  show ?thesis
    apply (subst parse_loop.simps)
    unfolding read_bytes_4 Let_def
    apply (simp only: not_short if_False cond' if_True nseq data body)
    done
qed

lemma sco_prepend3: "start_codes_only ([0, 0, 1] @ g) = start_codes_only g"
  by simp

lemma sco_prepend4: "start_codes_only ([0, 0, 0, 1] @ g) = start_codes_only g"
  by simp

lemma parse_loop_acc: "parse_loop buf pos acc = acc @ parse_loop buf pos []"
proof (induction "length buf - pos" arbitrary: pos acc rule: less_induct)
  case less
  consider (stop) "length buf < pos + 4"
    | (skip) "pos + 4 \<le> length buf" "\<not> starts_code buf pos"
    | (hit) "pos + 4 \<le> length buf" "starts_code buf pos"
    by linarith
  then show ?case
  proof cases
    case stop
    then show ?thesis by (simp add: parse_loop_stop)
  next
    case skip
    have "parse_loop buf (pos + 1) acc = acc @ parse_loop buf (pos + 1) []"
      using skip(1) by (intro less) simp
    then show ?thesis using skip by (simp add: parse_loop_skip)
  next
    case hit
    let ?ns = "pos + sc_len buf pos"
    let ?nx = "find_next_start buf ?ns"
    have "?ns \<le> length buf" using hit(1) by (simp add: sc_len_def)
    from find_next_start_bounds [OF this] have "pos < ?nx"
      by (simp add: sc_len_def split: if_splits)
    then have m: "length buf - ?nx < length buf - pos" using hit(1) by simp
    have "parse_loop buf ?nx (acc @ emit buf ?ns) = (acc @ emit buf ?ns) @ parse_loop buf ?nx []"
      by (rule less [OF m])
    moreover have "parse_loop buf ?nx (emit buf ?ns) = emit buf ?ns @ parse_loop buf ?nx []"
      by (rule less [OF m])
    ultimately show ?thesis
      by (simp add: parse_loop_hit [OF hit])
  qed
qed

lemma find_next_start_spec:
  "p \<le> length buf \<Longrightarrow>
   (\<forall>q. p \<le> q \<and> q < find_next_start buf p \<longrightarrow> \<not> starts_code buf q) \<and>
   (starts_code buf (find_next_start buf p) \<or>
    find_next_start buf p = length buf \<and> (\<forall>q\<ge>p. \<not> starts_code buf q))"
proof (induction "length buf - p" arbitrary: p rule: less_induct)
  case less
  consider (stop) "length buf < p + 3"
    | (skip) "p + 3 \<le> length buf" "\<not> starts_code buf p"
    | (hit) "starts_code buf p"
    by linarith
  then show ?case
  proof cases
    case stop
    then have "\<forall>q\<ge>p. \<not> starts_code buf q"
      using starts_code_length [of buf] by fastforce
    then show ?thesis using stop by (simp add: find_next_start_stop)
  next
    case skip
    have eq: "find_next_start buf p = find_next_start buf (Suc p)"
      using skip by (simp add: find_next_start_skip)
    have IH: "(\<forall>q. Suc p \<le> q \<and> q < find_next_start buf (Suc p) \<longrightarrow> \<not> starts_code buf q) \<and>
      (starts_code buf (find_next_start buf (Suc p)) \<or>
       find_next_start buf (Suc p) = length buf \<and> (\<forall>q\<ge>Suc p. \<not> starts_code buf q))"
      using skip(1) by (intro less) simp_all
    have step: "\<not> starts_code buf q" if "p \<le> q" "\<forall>r\<ge>Suc p. \<not> starts_code buf r" for q
      using that skip(2) by (cases "q = p") auto
    show ?thesis unfolding eq
      using IH skip(2) step by (metis Suc_leI le_neq_implies_less)
  next
    case hit
    then show ?thesis by (auto simp: find_next_start_hit)
  qed
qed

lemma find_next_start_idem:
  "p \<le> length buf \<Longrightarrow> find_next_start buf (find_next_start buf p) = find_next_start buf p"
  using find_next_start_spec [of p buf]
  by (auto simp: find_next_start_hit find_next_start_stop)

lemma find_next_start_least:
  assumes "starts_code buf f" "p \<le> f" "\<forall>q. p \<le> q \<and> q < f \<longrightarrow> \<not> starts_code buf q"
  shows "find_next_start buf p = f"
proof -
  have p: "p \<le> length buf" using starts_code_length [OF assms(1)] assms(2) by simp
  let ?r = "find_next_start buf p"
  from find_next_start_spec [OF p] find_next_start_bounds [OF p] assms
  show ?thesis by (metis linorder_neqE_nat not_le)
qed

lemma take_drop_length: "a \<le> b \<Longrightarrow> b \<le> length xs \<Longrightarrow> length (take (b - a) (drop a xs)) = b - a"
  by simp

lemma drop_split: "a \<le> b \<Longrightarrow> drop a xs = take (b - a) (drop a xs) @ drop b xs"
  by (metis append_take_drop_id drop_drop le_add_diff_inverse2)

lemma reassembles_nil: "start_codes_only t \<Longrightarrow> reassembles t []"
  unfolding reassembles_def by (intro exI [of _ "[]"] exI [of _ t]) (simp add: weave_def)

lemma reassembles_cons:
  assumes "sc \<noteq> []" "start_codes_only sc" "reassembles y us"
  shows "reassembles (sc @ nu_data u @ y) (u # us)"
proof -
  from assms(3) obtain gs tail where g: "length gs = length us"
    "\<forall>g\<in>set gs. g \<noteq> [] \<and> start_codes_only g" "start_codes_only tail" "y = weave gs us @ tail"
    unfolding reassembles_def by blast
  have "length (sc # gs) = length (u # us)" using g(1) by simp
  moreover have "\<forall>g\<in>set (sc # gs). g \<noteq> [] \<and> start_codes_only g" using g(2) assms(1,2) by simp
  moreover have "sc @ nu_data u @ y = weave (sc # gs) (u # us) @ tail"
    unfolding g(4) by (simp add: weave_def)
  ultimately show ?thesis unfolding reassembles_def using g(3) by blast
qed

lemma reassembles_prepend:
  assumes "\<And>g. start_codes_only (sc @ g) = start_codes_only g" "reassembles y us"
  shows "reassembles (sc @ y) us"
proof -
  from assms(2) obtain gs tail where g: "length gs = length us"
    "\<forall>g\<in>set gs. g \<noteq> [] \<and> start_codes_only g" "start_codes_only tail" "y = weave gs us @ tail"
    unfolding reassembles_def by blast
  show ?thesis
  proof (cases gs)
    case Nil
    then have "us = []" using g(1) by simp
    moreover have "start_codes_only (sc @ y)" using g Nil assms(1) by (simp add: weave_def)
    ultimately show ?thesis by (simp add: reassembles_nil)
  next
    case (Cons g0 gs')
    then obtain u us' where us: "us = u # us'" using g(1) by (cases us) auto
    have "length ((sc @ g0) # gs') = length us" using g(1) Cons by simp
    moreover have "\<forall>g\<in>set ((sc @ g0) # gs'). g \<noteq> [] \<and> start_codes_only g"
      using g(2) Cons assms(1) by simp
    moreover have "sc @ y = weave ((sc @ g0) # gs') us @ tail"
      unfolding g(4) Cons us by (simp add: weave_def)
    ultimately show ?thesis unfolding reassembles_def using g(3) by blast
  qed
qed

lemma start_code_tail:
  assumes "starts_code buf pos"
  shows "take 3 (drop (pos + sc_len buf pos - 3) buf) = [0, 0, 1]"
proof (cases "take 4 (drop pos buf) = [0, 0, 0, 1]")
  case True
  have "take 3 (drop (Suc pos) buf) = take 3 (drop 1 (take 4 (drop pos buf)))"
    by (simp add: drop_take)
  also have "\<dots> = [0, 0, 1]" unfolding True by simp
  finally show ?thesis using True by (simp add: sc_len_def)
next
  case False
  then show ?thesis using assms by (simp add: sc_len_def starts_code_def)
qed

lemma start_code_split:
  assumes "starts_code buf pos"
  shows "drop pos buf = take (sc_len buf pos) (drop pos buf) @ drop (pos + sc_len buf pos) buf"
    and "take (sc_len buf pos) (drop pos buf) = [0, 0, 1] \<or>
         take (sc_len buf pos) (drop pos buf) = [0, 0, 0, 1]"
proof -
  show "drop pos buf = take (sc_len buf pos) (drop pos buf) @ drop (pos + sc_len buf pos) buf"
    by (metis append_take_drop_id drop_drop add.commute)
  show "take (sc_len buf pos) (drop pos buf) = [0, 0, 1] \<or>
        take (sc_len buf pos) (drop pos buf) = [0, 0, 0, 1]"
    using assms by (auto simp: sc_len_def starts_code_def)
qed

lemma emit_span:
  assumes "starts_code buf pos" "pos + 4 \<le> length buf" "u \<in> set (emit buf (pos + sc_len buf pos))"
  shows "payload_span buf u \<and> nu_type u \<le> 31 \<and> 1 \<le> nu_size u \<and>
         nu_type u = unat (nu_data u ! 0 AND 0x1F)"
proof -
  let ?ns = "pos + sc_len buf pos"
  let ?nx = "find_next_start buf ?ns"
  have ns: "?ns \<le> length buf" "3 \<le> ?ns" using assms(2) by (simp_all add: sc_len_def)
  note b = find_next_start_bounds [OF ns(1)]
  note sp = find_next_start_spec [OF ns(1)]
  from assms(3) have ne: "?nx \<noteq> ?ns"
    and u: "u = \<lparr>nu_type = unat (buf ! ?ns AND 0x1F), nu_data = take (?nx - ?ns) (drop ?ns buf),
                 nu_size = int ?nx - int ?ns, nu_offset = ?ns\<rparr>"
    by (auto simp: emit_def Let_def split: if_splits)
  have b1: "?ns \<le> ?nx" and b2: "?nx \<le> length buf" using b by simp_all
  have len: "length (nu_data u) = ?nx - ?ns"
    unfolding u using take_drop_length [OF b1 b2] by simp
  have e: "nu_offset u + length (nu_data u) = ?nx" unfolding len using b1 by (simp add: u)
  have "buf ! ?ns AND 0x1F \<le> 0x1F" by (rule word_and_le1)
  then have ty: "nu_type u \<le> 31" by (simp add: u word_le_nat_alt)
  have "nu_size u = int ?nx - int ?ns" by (simp add: u)
  also have "\<dots> = int (?nx - ?ns)" using b1 by simp
  finally have sz: "nu_size u = int (length (nu_data u))" unfolding len .
  have "(if \<exists>q\<ge>?ns. starts_code buf q then starts_code buf ?nx else ?nx = length buf)"
    using sp b1 by auto
  note fin = this
  have off: "nu_offset u = ?ns" by (simp add: u)
  have dat: "nu_data u = take (length (nu_data u)) (drop ?ns buf)"
    unfolding len by (simp add: u)
  have "payload_span buf u"
    unfolding payload_span_def Let_def e
    unfolding off
    using sp b2 ns(2) start_code_tail [OF assms(1)] sz dat fin by blast
  moreover have "1 \<le> nu_size u" using b1 ne by (simp add: u)
  moreover have "nu_type u = unat (nu_data u ! 0 AND 0x1F)"
  proof -
    have "0 < ?nx - ?ns" "?ns < length buf" using b1 b2 ne by simp_all
    then have "take (?nx - ?ns) (drop ?ns buf) ! 0 = buf ! ?ns" by simp
    then show ?thesis by (simp add: u)
  qed
  ultimately show ?thesis using ty by simp
qed

lemma parse_loop_units:
  "u \<in> set (parse_loop buf pos []) \<Longrightarrow>
   payload_span buf u \<and> nu_type u \<le> 31 \<and> 1 \<le> nu_size u \<and>
   nu_type u = unat (nu_data u ! 0 AND 0x1F)"
proof (induction "length buf - pos" arbitrary: pos rule: less_induct)
  case less
  consider (stop) "length buf < pos + 4"
    | (skip) "pos + 4 \<le> length buf" "\<not> starts_code buf pos"
    | (hit) "pos + 4 \<le> length buf" "starts_code buf pos"
    by linarith
  then show ?case
  proof cases
    case stop
    then show ?thesis using less(2) by (simp add: parse_loop_stop)
  next
    case skip
    have "u \<in> set (parse_loop buf (pos + 1) [])"
      using less(2) skip by (simp add: parse_loop_skip)
    moreover have "length buf - (pos + 1) < length buf - pos" using skip(1) by simp
    ultimately show ?thesis by (rule less(1) [rotated])
  next
    case hit
    let ?ns = "pos + sc_len buf pos"
    let ?nx = "find_next_start buf ?ns"
    have "?ns \<le> length buf" using hit(1) by (simp add: sc_len_def)
    from find_next_start_bounds [OF this] have "pos < ?nx"
      by (simp add: sc_len_def split: if_splits)
    then have m: "length buf - ?nx < length buf - pos" using hit(1) by simp
    have "parse_loop buf pos [] = emit buf ?ns @ parse_loop buf ?nx []"
      using parse_loop_hit [OF hit, of "[]"] parse_loop_acc [of buf ?nx "emit buf ?ns"] by simp
    with less(2) consider "u \<in> set (emit buf ?ns)" | "u \<in> set (parse_loop buf ?nx [])"
      by auto
    then show ?thesis
    proof cases
      case 1
      then show ?thesis by (rule emit_span [OF hit(2) hit(1)])
    next
      case 2
      then show ?thesis by (rule less(1) [OF m])
    qed
  qed
qed

lemma parse_loop_no_start_code:
  "\<forall>q\<ge>pos. \<not> starts_code buf q \<Longrightarrow> parse_loop buf pos acc = acc"
proof (induction "length buf - pos" arbitrary: pos rule: less_induct)
  case less
  show ?case
  proof (cases "length buf < pos + 4")
    case True
    then show ?thesis by (simp add: parse_loop_stop)
  next
    case False
    then have "parse_loop buf pos acc = parse_loop buf (pos + 1) acc"
      using less(2) by (simp add: parse_loop_skip)
    also have "\<dots> = acc"
      using False less(2) by (intro less(1)) simp_all
    finally show ?thesis .
  qed
qed

lemma short_tail:
  assumes "length buf < pos + 4" "pos \<le> length buf"
  shows "start_codes_only (drop (find_next_start buf pos) buf)"
proof (cases "starts_code buf pos")
  case True
  from starts_code_length [OF True] assms have l: "length (drop pos buf) = 3" by simp
  have "take 4 (drop pos buf) \<noteq> [0, 0, 0, 1]"
  proof
    assume "take 4 (drop pos buf) = [0, 0, 0, 1]"
    from arg_cong [OF this, of length] l show False by simp
  qed
  with True have "take 3 (drop pos buf) = [0, 0, 1]" by (simp add: starts_code_def)
  with l have "drop pos buf = [0, 0, 1]" by simp
  then show ?thesis using True by (simp add: find_next_start_hit)
next
  case False
  have "\<forall>q\<ge>pos. \<not> starts_code buf q"
  proof (intro allI impI)
    fix q assume "pos \<le> q"
    show "\<not> starts_code buf q"
    proof (cases "q = pos")
      case True then show ?thesis using False by simp
    next
      case False
      with \<open>pos \<le> q\<close> assms have "length buf < q + 3" by simp
      then show ?thesis using starts_code_length [of buf q] by auto
    qed
  qed
  with find_next_start_spec [OF assms(2)] have "find_next_start buf pos = length buf"
    using find_next_start_bounds [OF assms(2)] by blast
  then show ?thesis by simp
qed

lemma parse_loop_decomposition:
  "pos \<le> length buf \<Longrightarrow>
   reassembles (drop (find_next_start buf pos) buf) (parse_loop buf pos [])"
proof (induction "length buf - pos" arbitrary: pos rule: less_induct)
  case less
  consider (stop) "length buf < pos + 4"
    | (skip) "pos + 4 \<le> length buf" "\<not> starts_code buf pos"
    | (hit) "pos + 4 \<le> length buf" "starts_code buf pos"
    by linarith
  then show ?case
  proof cases
    case stop
    have "start_codes_only (drop (find_next_start buf pos) buf)"
      by (rule short_tail [OF stop less(2)])
    then show ?thesis
      using stop by (simp add: parse_loop_stop reassembles_nil)
  next
    case skip
    have "reassembles (drop (find_next_start buf (pos + 1)) buf) (parse_loop buf (pos + 1) [])"
      using skip(1) by (intro less(1)) simp_all
    then show ?thesis
      using skip by (simp add: parse_loop_skip find_next_start_skip)
  next
    case hit
    let ?ns = "pos + sc_len buf pos"
    let ?nx = "find_next_start buf ?ns"
    let ?sc = "take (sc_len buf pos) (drop pos buf)"
    let ?rest = "parse_loop buf ?nx []"
    have ns: "?ns \<le> length buf" using hit(1) by (simp add: sc_len_def)
    have b1: "?ns \<le> ?nx" and b2: "?nx \<le> length buf"
      using find_next_start_bounds [OF ns] by simp_all
    from b1 have "pos < ?nx" by (simp add: sc_len_def split: if_splits)
    then have m: "length buf - ?nx < length buf - pos" using hit(1) by simp
    have us: "parse_loop buf pos [] = emit buf ?ns @ ?rest"
      using parse_loop_hit [OF hit, of "[]"] parse_loop_acc [of buf ?nx "emit buf ?ns"] by simp
    have IH: "reassembles (drop ?nx buf) ?rest"
      using less(1) [OF m b2] find_next_start_idem [OF ns] by simp
    have sc: "?sc = [0, 0, 1] \<or> ?sc = [0, 0, 0, 1]" by (rule start_code_split(2) [OF hit(2)])
    have sc_ne: "?sc \<noteq> []" using sc by (metis list.distinct(1))
    have sc_pre: "start_codes_only (?sc @ g) = start_codes_only g" for g
      using sc sco_prepend3 [of g] sco_prepend4 [of g] by metis
    have sc_only: "start_codes_only ?sc" using sc_pre [of "[]"] by simp
    have whole: "drop (find_next_start buf pos) buf = ?sc @ take (?nx - ?ns) (drop ?ns buf) @ drop ?nx buf"
      using start_code_split(1) [OF hit(2)] drop_split [OF b1, of buf]
      by (simp add: find_next_start_hit [OF hit(2)])
    show ?thesis
    proof (cases "?nx = ?ns")
      case False
      let ?u = "\<lparr>nu_type = unat (buf ! ?ns AND 0x1F),
          nu_data = take (?nx - ?ns) (drop ?ns buf), nu_size = int ?nx - int ?ns, nu_offset = ?ns\<rparr>"
      have em: "emit buf ?ns = [?u]" using False by (simp add: emit_def Let_def)
      have "reassembles (?sc @ nu_data ?u @ drop ?nx buf) (?u # ?rest)"
        by (rule reassembles_cons [OF sc_ne sc_only IH])
      then show ?thesis unfolding us em whole by simp
    next
      case True
      then have em: "emit buf ?ns = []" by (simp add: emit_def)
      have "reassembles (?sc @ drop ?nx buf) ?rest"
        by (rule reassembles_prepend [OF sc_pre IH])
      then show ?thesis unfolding us em whole using True by simp
    qed
  qed
qed

text \<open>
  Claim C7. Every unit \<^verbatim>\<open>parse_nal_units\<close> emits has a type between 0 and 31 and a
  recorded size of at least 1, which is the length of its payload: a payload of length
  zero is never emitted.
\<close>

theorem nal_unit_invariant:
  "\<forall>u\<in>set (parse_nal_units buf).
     nu_type u \<le> 31 \<and> 1 \<le> nu_size u \<and> nu_size u = int (length (nu_data u)) \<and> nu_data u \<noteq> []"
proof
  fix u assume "u \<in> set (parse_nal_units buf)"
  then have u: "payload_span buf u \<and> nu_type u \<le> 31 \<and> 1 \<le> nu_size u \<and>
      nu_type u = unat (nu_data u ! 0 AND 0x1F)"
    unfolding parse_nal_units_def by (rule parse_loop_units)
  then have "nu_size u = int (length (nu_data u))"
    by (simp add: payload_span_def Let_def)
  with u show "nu_type u \<le> 31 \<and> 1 \<le> nu_size u \<and> nu_size u = int (length (nu_data u)) \<and>
      nu_data u \<noteq> []"
    by auto
qed

theorem nal_unit_invariant_witness:
  "parse_nal_units [0, 0, 1, 0, 0, 1, 0x67, 0x42, 0, 0, 0, 1, 0x65] =
     [\<lparr>nu_type = 7, nu_data = [0x67, 0x42], nu_size = 2, nu_offset = 6\<rparr>,
      \<lparr>nu_type = 5, nu_data = [0x65], nu_size = 1, nu_offset = 12\<rparr>] \<and>
   list_all (\<lambda>u. nu_type u \<le> 31 \<and> 1 \<le> nu_size u \<and> nu_size u = int (length (nu_data u)) \<and>
                  nu_data u \<noteq> [])
     (parse_nal_units [0, 0, 1, 0, 0, 1, 0x67, 0x42, 0, 0, 0, 1, 0x65])"
proof -
  have "parse_nal_units [0, 0, 1, 0, 0, 1, 0x67, 0x42, 0, 0, 0, 1, 0x65] =
     [\<lparr>nu_type = 7, nu_data = [0x67, 0x42], nu_size = 2, nu_offset = 6\<rparr>,
      \<lparr>nu_type = 5, nu_data = [0x65], nu_size = 1, nu_offset = 12\<rparr>]"
    by code_simp
  then show ?thesis
    using nal_unit_invariant [of "[0, 0, 1, 0, 0, 1, 0x67, 0x42, 0, 0, 0, 1, 0x65]"]
    unfolding list_all_iff by blast
qed

text \<open>
  Claim C3. For every buffer: each emitted payload is the span of the buffer that begins
  right after a start code and ends where the next start code begins, or at the end of
  the buffer when no start code follows; from the position of the first start code on,
  the buffer is exactly the emitted payloads in order, each preceded by a non-empty run
  of start codes, followed by a possibly empty run of start codes; and a buffer in which
  no start code begins yields no unit.
\<close>

theorem scanner_reassembly:
  "(\<forall>u\<in>set (parse_nal_units buf). payload_span buf u) \<and>
   (\<forall>f. starts_code buf f \<and> (\<forall>q<f. \<not> starts_code buf q) \<longrightarrow>
        reassembles (drop f buf) (parse_nal_units buf)) \<and>
   ((\<forall>p. \<not> starts_code buf p) \<longrightarrow> parse_nal_units buf = [])"
proof (intro conjI ballI allI impI)
  fix u assume "u \<in> set (parse_nal_units buf)"
  then show "payload_span buf u"
    unfolding parse_nal_units_def using parse_loop_units by blast
next
  fix f assume f: "starts_code buf f \<and> (\<forall>q<f. \<not> starts_code buf q)"
  then have "find_next_start buf 0 = f"
    by (intro find_next_start_least) simp_all
  with parse_loop_decomposition [of 0 buf]
  show "reassembles (drop f buf) (parse_nal_units buf)"
    by (simp add: parse_nal_units_def)
next
  assume "\<forall>p. \<not> starts_code buf p"
  then show "parse_nal_units buf = []"
    unfolding parse_nal_units_def by (intro parse_loop_no_start_code) simp
qed

theorem scanner_reassembly_witness:
  "parse_nal_units [0xAA, 0, 0, 1, 0x65, 0x88, 0, 0, 0, 1, 0x41] =
     [\<lparr>nu_type = 5, nu_data = [0x65, 0x88], nu_size = 2, nu_offset = 4\<rparr>,
      \<lparr>nu_type = 1, nu_data = [0x41], nu_size = 1, nu_offset = 10\<rparr>] \<and>
   (\<exists>gs tail. length gs = 2 \<and> list_all (\<lambda>g. g \<noteq> [] \<and> start_codes_only g) gs \<and>
      start_codes_only tail \<and>
      [0, 0, 1, 0x65, 0x88, 0, 0, 0, 1, 0x41] = gs ! 0 @ [0x65, 0x88] @ gs ! 1 @ [0x41] @ tail) \<and>
   starts_code [0xAA, 0, 0, 1, 0x65, 0x88, 0, 0, 0, 1, 0x41] 6 \<and>
   parse_nal_units [1, 2, 3] = []"
proof -
  let ?B = "[0xAA, 0, 0, 1, 0x65, 0x88, 0, 0, 0, 1, 0x41] :: byte list"
  let ?u1 = "\<lparr>nu_type = 5, nu_data = [0x65, 0x88], nu_size = 2, nu_offset = 4\<rparr>"
  let ?u2 = "\<lparr>nu_type = 1, nu_data = [0x41], nu_size = 1, nu_offset = 10\<rparr>"
  have us: "parse_nal_units ?B = [?u1, ?u2]" by code_simp
  have first: "starts_code ?B 1 \<and> (\<forall>q<1. \<not> starts_code ?B q)"
    by (simp add: starts_code_def)
  have "reassembles (drop 1 ?B) (parse_nal_units ?B)"
    using scanner_reassembly [of ?B] first by blast
  then have "reassembles (drop 1 ?B) [?u1, ?u2]" unfolding us .
  then obtain gs tail where g: "length gs = length [?u1, ?u2]"
    "\<forall>g\<in>set gs. g \<noteq> [] \<and> start_codes_only g"
    "start_codes_only tail" "drop 1 ?B = weave gs [?u1, ?u2] @ tail"
    unfolding reassembles_def by blast
  from g(1) obtain g1 g2 where gs: "gs = [g1, g2]"
    by (cases gs; cases "tl gs"; cases "tl (tl gs)") auto
  have r: "\<exists>gs tail. length gs = 2 \<and> list_all (\<lambda>g. g \<noteq> [] \<and> start_codes_only g) gs \<and>
      start_codes_only tail \<and>
      [0, 0, 1, 0x65, 0x88, 0, 0, 0, 1, 0x41] = gs ! 0 @ [0x65, 0x88] @ gs ! 1 @ [0x41] @ tail"
    using g unfolding gs by (intro exI [of _ "[g1, g2]"] exI [of _ tail]) (simp add: weave_def)
  have "payload_span ?B ?u1" using scanner_reassembly [of ?B] us by simp
  then have s: "starts_code ?B 6" unfolding payload_span_def Let_def by (auto split: if_splits)
  have none: "\<forall>p. \<not> starts_code [1, 2, 3] p"
  proof
    fix p show "\<not> starts_code [1, 2, 3] p"
      using starts_code_length [of "[1, 2, 3]" p] by (cases p) (auto simp: starts_code_def)
  qed
  have e: "parse_nal_units [1, 2, 3] = []"
    using scanner_reassembly [of "[1, 2, 3]"] none by blast
  show ?thesis using us r s e by blast
qed

section \<open>Properties of the NAL classifier\<close>

lemma nal_type_cases:
  "(t::nat) \<in> {1, 2, 3, 4, 5} \<Longrightarrow> t = 1 \<or> t = 2 \<or> t = 3 \<or> t = 4 \<or> t = 5"
  by auto

lemma parse_slice_header_slice:
  assumes "2 \<le> length nal_data" and "unat (nal_data ! 0 AND 0x1F) = t" and "t \<in> {1, 2, 3, 4, 5}"
  shows "parse_slice_header nal_data =
     Some \<lparr>si_nal_type = t,
           si_slice_type = (if t = 5 then Some ''I'' else if t = 1 then Some ''P/B'' else None),
           si_frame_num = None,
           si_idr_pic_id = (if t = 5 then Some 0 else None),
           si_is_reference = (t = 1 \<or> t = 2 \<or> t = 5)\<rparr>"
proof -
  have l: "\<not> length nal_data < 2" using assms(1) by simp
  show ?thesis
    unfolding parse_slice_header_def Let_def assms(2)
    using nal_type_cases [OF assms(3)] l by (elim disjE) simp_all
qed

lemma parse_slice_header_short: "length nal_data < 2 \<Longrightarrow> parse_slice_header nal_data = None"
  by (simp add: parse_slice_header_def)

lemma ref_step_frames: "rd_frames (ref_step st nal) = rd_frames st @ slice_entries nal"
proof -
  consider (sps) "nu_type nal = 7" | (pps) "nu_type nal = 8"
    | (slice) "nu_type nal \<in> {1, 2, 3, 4, 5}"
    | (other) "nu_type nal \<noteq> 7" "nu_type nal \<noteq> 8" "nu_type nal \<notin> {1, 2, 3, 4, 5}"
    by blast
  then show ?thesis
  proof cases
    case sps
    then show ?thesis by (simp add: ref_step_def slice_entries_def)
  next
    case pps
    then show ?thesis by (simp add: ref_step_def slice_entries_def)
  next
    case slice
    then have n: "nu_type nal \<noteq> 7" "nu_type nal \<noteq> 8" by auto
    show ?thesis
    proof (cases "parse_slice_header (nu_data nal)")
      case None
      then show ?thesis using slice n by (simp add: ref_step_def slice_entries_def)
    next
      case (Some info)
      then show ?thesis using slice n by (simp add: ref_step_def slice_entries_def)
    qed
  next
    case other
    then show ?thesis by (simp add: ref_step_def slice_entries_def)
  qed
qed

lemma foldl_ref_step_frames:
  "rd_frames (foldl ref_step st nals) = rd_frames st @ concat (map slice_entries nals)"
  by (induction nals arbitrary: st) (simp_all add: ref_step_frames)

lemma analyze_reference_frames_entries:
  "rd_frames (analyze_reference_frames nals) = concat (map slice_entries nals)"
  by (simp add: analyze_reference_frames_def foldl_ref_step_frames)

text \<open>
  Claim C1, as stated, fails: a unit that is its header byte alone, here of type 5, gets
  no slice info, so nothing reports it as an IDR or a reference picture.
\<close>

theorem slice_classification_counterexample:
  "unat (([0x65] :: byte list) ! 0 AND 0x1F) = 5 \<and>
   parse_slice_header [0x65] = None \<and>
   map_option is_idr (parse_slice_header [0x65]) \<noteq> Some True \<and>
   map_option si_is_reference (parse_slice_header [0x65]) \<noteq> Some True"
  by (simp add: parse_slice_header_def)

text \<open>
  Claim C1, amended. For NAL data of at least two bytes whose type (the low five bits of
  the first byte) is 1 to 5, \<^verbatim>\<open>parse_slice_header\<close> derives slice info that carries
  that type, is a reference exactly for the types 1, 2 and 5, and is an IDR picture
  exactly for type 5; so type 5 is both, and the types 3 and 4 are not references.
\<close>

theorem slice_classification:
  assumes "2 \<le> length nal_data" and "unat (nal_data ! 0 AND 0x1F) \<in> {1, 2, 3, 4, 5}"
  shows "\<exists>info. parse_slice_header nal_data = Some info \<and>
           si_nal_type info = unat (nal_data ! 0 AND 0x1F) \<and>
           si_is_reference info = (si_nal_type info \<in> {1, 2, 5}) \<and>
           is_idr info = (si_nal_type info = 5) \<and>
           (si_nal_type info = 5 \<longrightarrow> is_idr info \<and> si_is_reference info) \<and>
           (si_nal_type info \<in> {3, 4} \<longrightarrow> \<not> si_is_reference info)"
  unfolding parse_slice_header_slice [OF assms(1) refl assms(2)]
  by (simp add: is_idr_def)

theorem slice_classification_witness:
  "map_option si_is_reference (parse_slice_header [0x65, 0x88]) = Some True \<and>
   map_option is_idr (parse_slice_header [0x65, 0x88]) = Some True \<and>
   map_option si_is_reference (parse_slice_header [0x03, 0x00]) = Some False \<and>
   map_option is_idr (parse_slice_header [0x03, 0x00]) = Some False"
proof -
  have a: "2 \<le> length [0x65, 0x88 :: byte]" "unat ([0x65, 0x88 :: byte] ! 0 AND 0x1F) \<in> {1, 2, 3, 4, 5}"
    by simp_all
  have c: "2 \<le> length [0x03, 0x00 :: byte]" "unat ([0x03, 0x00 :: byte] ! 0 AND 0x1F) \<in> {1, 2, 3, 4, 5}"
    by simp_all
  have ta: "unat ([0x65, 0x88 :: byte] ! 0 AND 0x1F) = 5" by simp
  have tc: "unat ([0x03, 0x00 :: byte] ! 0 AND 0x1F) = 3" by simp
  from slice_classification [OF a] obtain ia where
    ia: "parse_slice_header [0x65, 0x88] = Some ia" "si_nal_type ia = 5"
      "si_nal_type ia = 5 \<longrightarrow> is_idr ia \<and> si_is_reference ia"
    unfolding ta by blast
  from slice_classification [OF c] obtain ic where
    ic: "parse_slice_header [0x03, 0x00] = Some ic" "si_nal_type ic = 3"
      "si_is_reference ic = (si_nal_type ic \<in> {1, 2, 5})" "is_idr ic = (si_nal_type ic = 5)"
    unfolding tc by blast
  from ia have "si_is_reference ia \<and> is_idr ia" by simp
  moreover from ic have "\<not> si_is_reference ic \<and> \<not> is_idr ic" by simp
  ultimately show ?thesis unfolding ia(1) ic(1) by simp
qed

text \<open>
  Claim C2, as stated, fails: for type 2 (and 3 and 4) the slice type is left unset, not
  set to \<^verbatim>\<open>P/B\<close>, and a one-byte unit, here of type 1, gets no slice info at all.
\<close>

theorem slice_type_counterexample:
  "unat (([0x42, 0x00] :: byte list) ! 0 AND 0x1F) = 2 \<and>
   map_option si_slice_type (parse_slice_header [0x42, 0x00]) = Some None \<and>
   map_option si_slice_type (parse_slice_header [0x42, 0x00]) \<noteq> Some (Some ''P/B'') \<and>
   unat (([0x41] :: byte list) ! 0 AND 0x1F) = 1 \<and>
   parse_slice_header [0x41] = None"
  by (simp add: parse_slice_header_def)

text \<open>
  Claim C2, amended. For NAL data of at least two bytes whose type is 1 to 5,
  \<^verbatim>\<open>parse_slice_header\<close> returns slice info whose slice type is \<^verbatim>\<open>I\<close> for
  type 5, \<^verbatim>\<open>P/B\<close> for type 1, and unset for the types 2, 3 and 4.
\<close>

theorem slice_type_amended:
  assumes "2 \<le> length nal_data" and "unat (nal_data ! 0 AND 0x1F) \<in> {1, 2, 3, 4, 5}"
  shows "\<exists>info. parse_slice_header nal_data = Some info \<and>
           si_slice_type info =
             (if unat (nal_data ! 0 AND 0x1F) = 5 then Some ''I''
              else if unat (nal_data ! 0 AND 0x1F) = 1 then Some ''P/B''
              else None)"
  unfolding parse_slice_header_slice [OF assms(1) refl assms(2)] by simp

theorem slice_type_amended_witness:
  "map_option si_slice_type (parse_slice_header [0x65, 0x88]) = Some (Some ''I'') \<and>
   map_option si_slice_type (parse_slice_header [0x41, 0x9A]) = Some (Some ''P/B'') \<and>
   map_option si_slice_type (parse_slice_header [0x44, 0x00]) = Some None"
proof -
  have a: "2 \<le> length [0x65, 0x88 :: byte]" "unat ([0x65, 0x88 :: byte] ! 0 AND 0x1F) \<in> {1, 2, 3, 4, 5}"
    by simp_all
  have b: "2 \<le> length [0x41, 0x9A :: byte]" "unat ([0x41, 0x9A :: byte] ! 0 AND 0x1F) \<in> {1, 2, 3, 4, 5}"
    by simp_all
  have c: "2 \<le> length [0x44, 0x00 :: byte]" "unat ([0x44, 0x00 :: byte] ! 0 AND 0x1F) \<in> {1, 2, 3, 4, 5}"
    by simp_all
  have ta: "unat ([0x65, 0x88 :: byte] ! 0 AND 0x1F) = 5" by simp
  have tb: "unat ([0x41, 0x9A :: byte] ! 0 AND 0x1F) = 1" by simp
  have tc: "unat ([0x44, 0x00 :: byte] ! 0 AND 0x1F) = 4" by simp
  obtain ia where ia: "parse_slice_header [0x65, 0x88] = Some ia"
    by (simp add: parse_slice_header_def)
  obtain ib where ib: "parse_slice_header [0x41, 0x9A] = Some ib"
    by (simp add: parse_slice_header_def)
  obtain ic where ic: "parse_slice_header [0x44, 0x00] = Some ic"
    by (simp add: parse_slice_header_def)
  from slice_type_amended [OF a] have "si_slice_type ia = Some ''I''"
    unfolding ia ta by simp
  moreover from slice_type_amended [OF b] have "si_slice_type ib = Some ''P/B''"
    unfolding ib tb by simp
  moreover from slice_type_amended [OF c] have "si_slice_type ic = None"
    unfolding ic tc by simp
  ultimately show ?thesis unfolding ia ib ic by simp
qed

text \<open>
  Claim C10. NAL data shorter than two bytes gets no slice info from
  \<^verbatim>\<open>parse_slice_header\<close>, whatever its type, and a unit with such data adds no entry
  to the frames of \<^verbatim>\<open>analyze_reference_frames\<close>: the frames are those of the list
  without the unit.
\<close>

theorem short_unit_not_classified:
  assumes "length (nu_data nal) < 2"
  shows "parse_slice_header (nu_data nal) = None \<and>
         rd_frames (analyze_reference_frames (xs @ nal # ys)) =
         rd_frames (analyze_reference_frames (xs @ ys))"
proof -
  have none: "parse_slice_header (nu_data nal) = None"
    using assms by (simp add: parse_slice_header_def)
  then have "slice_entries nal = []" by (simp add: slice_entries_def)
  then show ?thesis
    using none by (simp add: analyze_reference_frames_entries)
qed

theorem short_unit_not_classified_witness:
  "parse_slice_header [0x65] = None \<and>
   rd_frames (analyze_reference_frames
     [\<lparr>nu_type = 1, nu_data = [0x41, 0x9A], nu_size = 2, nu_offset = 3\<rparr>,
      \<lparr>nu_type = 5, nu_data = [0x65], nu_size = 1, nu_offset = 8\<rparr>]) =
   [\<lparr>fi_nal_type = 1, fi_slice_type = Some ''P/B'', fi_is_reference = True, fi_size = 2\<rparr>]"
proof -
  let ?n = "\<lparr>nu_type = 5, nu_data = [0x65 :: byte], nu_size = 1, nu_offset = 8\<rparr>"
  let ?m = "\<lparr>nu_type = 1, nu_data = [0x41, 0x9A :: byte], nu_size = 2, nu_offset = 3\<rparr>"
  have l: "length (nu_data ?n) < 2" by simp
  have "rd_frames (analyze_reference_frames [?m]) =
     [\<lparr>fi_nal_type = 1, fi_slice_type = Some ''P/B'', fi_is_reference = True, fi_size = 2\<rparr>]"
    by code_simp
  then show ?thesis
    using short_unit_not_classified [OF l, of "[?m]" "[]"] by simp
qed

section \<open>Properties of the GOP segmenter\<close>

lemma gop_entries_Nil: "gop_entries i [] = []"
  by (simp add: gop_entries_def)

lemma gop_entries_Cons: "gop_entries i (f # fs) = gop_entry i f # gop_entries (Suc i) fs"
  by (simp add: gop_entries_def)

lemma gop_loop_concat:
  "gop_loop i fs gops cur = (gops', cur') \<Longrightarrow>
   concat gops' @ cur' = concat gops @ cur @ gop_entries i fs"
proof (induction fs arbitrary: i gops cur)
  case Nil
  then show ?case by (simp add: gop_entries_Nil)
next
  case (Cons f fs)
  let ?e = "gop_entry i f"
  show ?case
  proof (cases "gf_type ?e = ''I''")
    case True
    then have "gop_loop (i + 1) fs (if cur \<noteq> [] then gops @ [cur] else gops) [?e] = (gops', cur')"
      using Cons.prems by (simp add: gop_entry_def Let_def)
    from Cons.IH [OF this] show ?thesis
      by (simp add: gop_entries_Cons)
  next
    case False
    then have "gop_loop (i + 1) fs gops (cur @ [?e]) = (gops', cur')"
      using Cons.prems by (simp add: gop_entry_def Let_def)
    from Cons.IH [OF this] show ?thesis
      by (simp add: gop_entries_Cons)
  qed
qed

lemma gop_loop_nonempty:
  "gop_loop i fs gops cur = (gops', cur') \<Longrightarrow> [] \<notin> set gops \<Longrightarrow> [] \<notin> set gops'"
proof (induction fs arbitrary: i gops cur)
  case Nil
  then show ?case by simp
next
  case (Cons f fs)
  let ?e = "gop_entry i f"
  show ?case
  proof (cases "gf_type ?e = ''I''")
    case True
    then have "gop_loop (i + 1) fs (if cur \<noteq> [] then gops @ [cur] else gops) [?e] = (gops', cur')"
      using Cons.prems(1) by (simp add: gop_entry_def Let_def)
    moreover have "[] \<notin> set (if cur \<noteq> [] then gops @ [cur] else gops)"
      using Cons.prems(2) by auto
    ultimately show ?thesis by (rule Cons.IH)
  next
    case False
    then have "gop_loop (i + 1) fs gops (cur @ [?e]) = (gops', cur')"
      using Cons.prems(1) by (simp add: gop_entry_def Let_def)
    then show ?thesis using Cons.prems(2) by (rule Cons.IH)
  qed
qed

lemma analyze_gop_structure_concat:
  "concat (analyze_gop_structure frames) = gop_entries 0 frames"
proof -
  obtain gops cur where l: "gop_loop 0 frames [] [] = (gops, cur)" by fastforce
  from gop_loop_concat [OF l] show ?thesis
    by (cases "cur = []") (simp_all add: analyze_gop_structure_def l)
qed

lemma analyze_gop_structure_nonempty: "[] \<notin> set (analyze_gop_structure frames)"
proof -
  obtain gops cur where l: "gop_loop 0 frames [] [] = (gops, cur)" by fastforce
  from gop_loop_nonempty [OF l] show ?thesis
    by (simp add: analyze_gop_structure_def l)
qed

lemma gop_entries_index: "map gf_index (gop_entries i frames) = [i..<i + length frames]"
  by (induction frames arbitrary: i) (simp_all add: gop_entries_Nil gop_entries_Cons gop_entry_def upt_rec)

lemma heads_sorted:
  fixes xss :: "nat list list"
  shows "[] \<notin> set xss \<Longrightarrow> sorted_wrt (<) (concat xss) \<Longrightarrow> sorted_wrt (<) (map hd xss)"
proof (induction xss)
  case Nil
  then show ?case by simp
next
  case (Cons xs xss)
  from Cons.prems have ne: "xs \<noteq> []" "[] \<notin> set xss" by auto
  from Cons.prems(2) have s: "sorted_wrt (<) (concat xss)"
    and lt: "\<forall>x\<in>set xs. \<forall>y\<in>set (concat xss). x < y"
    by (simp_all add: sorted_wrt_append)
  have "hd xs < hd ys" if "ys \<in> set xss" for ys
  proof -
    from that ne(2) have "ys \<noteq> []" by auto
    then have "hd ys \<in> set ys" by simp
    then have "hd ys \<in> set (concat xss)" using that by auto
    moreover have "hd xs \<in> set xs" using ne(1) by simp
    ultimately show ?thesis using lt by blast
  qed
  then show ?case using Cons.IH [OF ne(2) s] by simp
qed

text \<open>
  Claim C4. For every frame list, the GOPs of \<^verbatim>\<open>analyze_gop_structure\<close> laid end to
  end are the entries of the input frames in input order, so the frame indices are
  \<open>0, 1, ..., n - 1\<close>, each exactly once; the GOP sizes add up to the number of frames;
  no GOP is empty; the first-frame indices of the GOPs increase; and no frames give no
  GOPs.
\<close>

theorem gop_partition:
  "concat (analyze_gop_structure frames) = gop_entries 0 frames \<and>
   map gf_index (concat (analyze_gop_structure frames)) = [0..<length frames] \<and>
   sum_list (map length (analyze_gop_structure frames)) = length frames \<and>
   [] \<notin> set (analyze_gop_structure frames) \<and>
   sorted_wrt (<) (map (\<lambda>g. gf_index (hd g)) (analyze_gop_structure frames)) \<and>
   (frames = [] \<longrightarrow> analyze_gop_structure frames = [])"
proof -
  let ?gops = "analyze_gop_structure frames"
  have c: "concat ?gops = gop_entries 0 frames" by (rule analyze_gop_structure_concat)
  have idx: "map gf_index (concat ?gops) = [0..<length frames]"
    by (simp add: c gop_entries_index)
  have "sum_list (map length ?gops) = length (concat ?gops)" by (simp add: length_concat)
  also have "\<dots> = length frames" by (simp add: c gop_entries_def)
  finally have len: "sum_list (map length ?gops) = length frames" .
  have ne: "[] \<notin> set ?gops" by (rule analyze_gop_structure_nonempty)
  have "sorted_wrt (<) (map hd (map (map gf_index) ?gops))"
  proof (rule heads_sorted)
    show "[] \<notin> set (map (map gf_index) ?gops)" using ne by auto
    have "concat (map (map gf_index) ?gops) = [0..<length frames]"
      using idx by (simp add: map_concat)
    then show "sorted_wrt (<) (concat (map (map gf_index) ?gops))" by simp
  qed
  moreover have "hd (map gf_index g) = gf_index (hd g)" if "g \<in> set ?gops" for g
  proof -
    from that ne have "g \<noteq> []" by auto
    then show ?thesis by (simp add: hd_map)
  qed
  then have "map hd (map (map gf_index) ?gops) = map (\<lambda>g. gf_index (hd g)) ?gops"
    by simp
  ultimately have srt: "sorted_wrt (<) (map (\<lambda>g. gf_index (hd g)) ?gops)"
    by (simp only:)
  have "analyze_gop_structure [] = []" by (simp add: analyze_gop_structure_def)
  with c idx len ne srt show ?thesis by blast
qed

theorem gop_partition_witness:
  "map (map gf_index)
     (analyze_gop_structure
       [\<lparr>fr_pict_type = Some ''I'', fr_pts = Some 0, fr_pkt_size = None\<rparr>,
        \<lparr>fr_pict_type = Some ''P'', fr_pts = Some 1, fr_pkt_size = None\<rparr>,
        \<lparr>fr_pict_type = Some ''P'', fr_pts = None, fr_pkt_size = None\<rparr>,
        \<lparr>fr_pict_type = Some ''I'', fr_pts = Some 3, fr_pkt_size = None\<rparr>,
        \<lparr>fr_pict_type = None, fr_pts = Some 4, fr_pkt_size = None\<rparr>]) = [[0, 1, 2], [3, 4]] \<and>
   sum_list (map length
     (analyze_gop_structure
       [\<lparr>fr_pict_type = Some ''I'', fr_pts = Some 0, fr_pkt_size = None\<rparr>,
        \<lparr>fr_pict_type = Some ''P'', fr_pts = Some 1, fr_pkt_size = None\<rparr>,
        \<lparr>fr_pict_type = Some ''P'', fr_pts = None, fr_pkt_size = None\<rparr>,
        \<lparr>fr_pict_type = Some ''I'', fr_pts = Some 3, fr_pkt_size = None\<rparr>,
        \<lparr>fr_pict_type = None, fr_pts = Some 4, fr_pkt_size = None\<rparr>])) = 5 \<and>
   analyze_gop_structure [] = []"
proof -
  let ?F = "[\<lparr>fr_pict_type = Some ''I'', fr_pts = Some 0, fr_pkt_size = None\<rparr>,
        \<lparr>fr_pict_type = Some ''P'', fr_pts = Some 1, fr_pkt_size = None\<rparr>,
        \<lparr>fr_pict_type = Some ''P'', fr_pts = None, fr_pkt_size = None\<rparr>,
        \<lparr>fr_pict_type = Some ''I'', fr_pts = Some 3, fr_pkt_size = None\<rparr>,
        \<lparr>fr_pict_type = None, fr_pts = Some 4, fr_pkt_size = None\<rparr>]"
  have e: "map (map gf_index) (analyze_gop_structure ?F) = [[0, 1, 2], [3, 4]]"
    by code_simp
  have "sum_list (map length (analyze_gop_structure ?F)) = length ?F"
    using gop_partition [of ?F] by blast
  then have s: "sum_list (map length (analyze_gop_structure ?F)) = 5" by simp
  have "analyze_gop_structure ([] :: frame list) = []"
    using gop_partition [of "[]"] by blast
  with e s show ?thesis by blast
qed

section \<open>Properties of the statistics aggregator\<close>

text \<open>
  Claim C5. For a non-empty list of frame sizes and a positive frame rate, the average
  bitrate of the bitrate report, and of the summary when there is a GOP, is the sum of
  the sizes times 8 divided by the duration, the frame count over the frame rate; the
  guarded expression gives 0 for a duration of 0. Four frames of 1000 bytes at 60 frames
  per second give 480000.
\<close>

theorem average_bitrate:
  assumes "frame_sizes \<noteq> []" and "0 < framerate"
  shows "(\<exists>r. print_bitrate_analysis frame_sizes framerate = Inr (Some r) \<and>
            br_avg_bitrate r =
              real_of_int (\<Sum>size\<leftarrow>frame_sizes. size * 8) /
              (real (length frame_sizes) / real_of_int framerate)) \<and>
         (gops \<noteq> [] \<longrightarrow>
           (\<exists>s. video_summary frame_sizes gops ref_frames framerate = Inr (Some s) \<and>
              sm_avg_bitrate s =
                real_of_int (\<Sum>size\<leftarrow>frame_sizes. size * 8) /
                (real (length frame_sizes) / real_of_int framerate))) \<and>
         avg_bitrate_expr total_bits 0 = 0"
proof -
  have d: "0 < real (length frame_sizes) / real_of_int framerate"
    using assms by simp
  have s: "sum_list frame_sizes * 8 = (\<Sum>size\<leftarrow>frame_sizes. size * 8)"
    by (simp add: sum_list_mult_const)
  have 1: "\<exists>r. print_bitrate_analysis frame_sizes framerate = Inr (Some r) \<and>
            br_avg_bitrate r =
              real_of_int (\<Sum>size\<leftarrow>frame_sizes. size * 8) /
              (real (length frame_sizes) / real_of_int framerate)"
    using assms d by (simp add: print_bitrate_analysis_def Let_def avg_bitrate_expr_def)
  have 2: "\<exists>s. video_summary frame_sizes gops ref_frames framerate = Inr (Some s) \<and>
              sm_avg_bitrate s =
                real_of_int (\<Sum>size\<leftarrow>frame_sizes. size * 8) /
                (real (length frame_sizes) / real_of_int framerate)" if "gops \<noteq> []"
    using assms d that unfolding s [symmetric]
    by (simp add: video_summary_def Let_def avg_bitrate_expr_def)
  have 3: "avg_bitrate_expr total_bits 0 = 0" by (simp add: avg_bitrate_expr_def)
  from 1 2 3 show ?thesis by blast
qed

theorem average_bitrate_witness:
  "(\<exists>r. print_bitrate_analysis [1000, 1000, 1000, 1000] 60 = Inr (Some r) \<and>
        br_avg_bitrate r = 480000) \<and>
   (\<exists>s. video_summary [1000, 1000, 1000, 1000]
          [[\<lparr>gf_index = 0, gf_type = ''I'', gf_pts = NA\<rparr>]] [] 60 = Inr (Some s) \<and>
        sm_avg_bitrate s = 480000)"
proof -
  have a: "[1000, 1000, 1000, 1000 :: int] \<noteq> []" "(0::int) < 60" by simp_all
  have g: "[[\<lparr>gf_index = 0, gf_type = ''I'', gf_pts = NA\<rparr>]] \<noteq> []" by simp
  have v: "real_of_int (\<Sum>size\<leftarrow>[1000, 1000, 1000, 1000]. size * 8) /
      (real (length [1000, 1000, 1000, 1000 :: int]) / real_of_int 60) = 480000"
    by simp
  from average_bitrate [OF a, of "[[\<lparr>gf_index = 0, gf_type = ''I'', gf_pts = NA\<rparr>]]" "[]" 0] g
  show ?thesis unfolding v by blast
qed

text \<open>
  Claim C6, as stated, fails: for no frame sizes the aggregator reports no bitrate at
  all, rather than the bitrate 0.
\<close>

theorem empty_sizes_counterexample:
  "map_sum id (map_option br_avg_bitrate) (print_bitrate_analysis [] 60) = Inr None \<and>
   map_sum id (map_option br_avg_bitrate) (print_bitrate_analysis [] 60) \<noteq> Inr (Some 0) \<and>
   map_sum id (map_option sm_avg_bitrate)
     (analyze_video [\<lparr>fr_pict_type = Some ''I'', fr_pts = Some 0, fr_pkt_size = None\<rparr>] [] None 60) =
     Inr None \<and>
   map_sum id (map_option sm_avg_bitrate)
     (analyze_video [\<lparr>fr_pict_type = Some ''I'', fr_pts = Some 0, fr_pkt_size = None\<rparr>] [] None 60) \<noteq>
     Inr (Some 0)"
proof -
  have "analyze_video [\<lparr>fr_pict_type = Some ''I'', fr_pts = Some 0, fr_pkt_size = None\<rparr>] [] None 60 =
      Inr None"
    by (simp add: analyze_video_def analyze_gop_structure_def print_gop_analysis_def
        analyze_bitrate_def print_bitrate_analysis_def video_summary_def Let_def)
  then show ?thesis by (simp add: print_bitrate_analysis_def)
qed

text \<open>
  With a GOP and the frame rate 0 the GOP report, which runs first, raises: the run of
  \<^verbatim>\<open>analyze_video\<close> ends in the error whatever the frame sizes are.
\<close>

lemma analyze_video_zero_framerate:
  "analyze_gop_structure frames \<noteq> [] \<Longrightarrow>
   analyze_video frames packets h264_data 0 = Inl ZeroDivisionError"
  by (simp add: analyze_video_def print_gop_analysis_def)

text \<open>
  Claim C6, amended. For the empty list of frame sizes \<^verbatim>\<open>print_bitrate_analysis\<close>
  returns after ``No frame data available'' and reports no bitrate. When no packet gives a
  frame size, and the frame rate is not 0 or there is no GOP, \<^verbatim>\<open>analyze_video\<close> does
  not fail and returns no summary, so no bitrate.
\<close>

theorem empty_sizes_no_bitrate:
  "print_bitrate_analysis [] framerate = Inr None \<and>
   (fst (analyze_bitrate packets) = [] \<and>
    (framerate \<noteq> 0 \<or> analyze_gop_structure frames = []) \<longrightarrow>
    analyze_video frames packets h264_data framerate = Inr None)"
proof (intro conjI impI)
  show "print_bitrate_analysis [] framerate = Inr None"
    by (simp add: print_bitrate_analysis_def)
next
  assume a: "fst (analyze_bitrate packets) = [] \<and>
    (framerate \<noteq> 0 \<or> analyze_gop_structure frames = [])"
  then have "\<exists>r. print_gop_analysis (analyze_gop_structure frames) framerate = Inr r"
    by (auto simp: print_gop_analysis_def Let_def)
  then obtain r where g: "print_gop_analysis (analyze_gop_structure frames) framerate = Inr r" ..
  have b: "print_bitrate_analysis [] framerate = Inr None"
    by (simp add: print_bitrate_analysis_def)
  have v: "video_summary [] gops ref_frames framerate = Inr None" for gops ref_frames
    by (simp add: video_summary_def)
  from a have s: "fst (analyze_bitrate packets) = []" by simp
  show "analyze_video frames packets h264_data framerate = Inr None"
    unfolding analyze_video_def Let_def g s b by (simp add: v)
qed

theorem empty_sizes_no_bitrate_witness:
  "analyze_video
     [\<lparr>fr_pict_type = Some ''I'', fr_pts = Some 0, fr_pkt_size = None\<rparr>,
      \<lparr>fr_pict_type = Some ''P'', fr_pts = Some 1, fr_pkt_size = None\<rparr>]
     [\<lparr>pk_codec_type = Some ''audio'', pk_size = Some 417\<rparr>]
     (Some [0, 0, 1, 0x65, 0x88]) 60 = Inr None \<and>
   analyze_video [] [] None 0 = Inr None \<and>
   print_bitrate_analysis [] 0 = Inr None"
proof -
  let ?F = "[\<lparr>fr_pict_type = Some ''I'', fr_pts = Some 0, fr_pkt_size = None\<rparr>,
      \<lparr>fr_pict_type = Some ''P'', fr_pts = Some 1, fr_pkt_size = None\<rparr>]"
  let ?P = "[\<lparr>pk_codec_type = Some ''audio'', pk_size = Some 417\<rparr>]"
  have 1: "fst (analyze_bitrate ?P) = [] \<and> ((60 :: int) \<noteq> 0 \<or> analyze_gop_structure ?F = [])"
    by (simp add: analyze_bitrate_def)
  have 2: "fst (analyze_bitrate []) = [] \<and> ((0 :: int) \<noteq> 0 \<or> analyze_gop_structure [] = [])"
    by (simp add: analyze_bitrate_def analyze_gop_structure_def)
  from empty_sizes_no_bitrate [of 60 ?P ?F "Some [0, 0, 1, 0x65, 0x88]"] 1
  have a: "analyze_video ?F ?P (Some [0, 0, 1, 0x65, 0x88]) 60 = Inr None" by blast
  from empty_sizes_no_bitrate [of 0 "[]" "[]" None] 2
  have b: "analyze_video [] [] None 0 = Inr None \<and> print_bitrate_analysis [] 0 = Inr None"
    by blast
  from a b show ?thesis by blast
qed

lemma slice_entries_reference:
  assumes "nu_type u = unat (nu_data u ! 0 AND 0x1F)" and "f \<in> set (slice_entries u)"
  shows "fi_is_reference f = (fi_nal_type f = 1 \<or> fi_nal_type f = 2 \<or> fi_nal_type f = 5)"
proof (cases "nu_type u \<in> {1, 2, 3, 4, 5}")
  case False
  then have "slice_entries u = []" unfolding slice_entries_def by (simp only: if_False)
  with assms(2) show ?thesis by simp
next
  case t: True
  show ?thesis
  proof (cases "parse_slice_header (nu_data u)")
    case None
    then have "slice_entries u = []" unfolding slice_entries_def by simp
    with assms(2) show ?thesis by simp
  next
    case (Some info)
    have l: "2 \<le> length (nu_data u)"
    proof (rule ccontr)
      assume "\<not> 2 \<le> length (nu_data u)"
      then have "parse_slice_header (nu_data u) = None" by (simp add: parse_slice_header_short)
      with Some show False by simp
    qed
    from parse_slice_header_slice [OF l assms(1) [symmetric] t] Some
    have r: "si_is_reference info = (nu_type u = 1 \<or> nu_type u = 2 \<or> nu_type u = 5)"
      by auto
    have "slice_entries u =
        [\<lparr>fi_nal_type = nu_type u, fi_slice_type = si_slice_type info,
          fi_is_reference = si_is_reference info, fi_size = nu_size u\<rparr>]"
      unfolding slice_entries_def Some using t by simp
    with assms(2) have "f = \<lparr>fi_nal_type = nu_type u, fi_slice_type = si_slice_type info,
          fi_is_reference = si_is_reference info, fi_size = nu_size u\<rparr>"
      by simp
    then show ?thesis using r by simp
  qed
qed

lemma scanned_frames_reference:
  assumes "f \<in> set (rd_frames (analyze_reference_frames (parse_nal_units buf)))"
  shows "fi_is_reference f = (fi_nal_type f = 1 \<or> fi_nal_type f = 2 \<or> fi_nal_type f = 5)"
proof -
  from assms obtain u where u: "u \<in> set (parse_nal_units buf)" "f \<in> set (slice_entries u)"
    by (auto simp: analyze_reference_frames_entries)
  from u(1) have "nu_type u = unat (nu_data u ! 0 AND 0x1F)"
    unfolding parse_nal_units_def using parse_loop_units by blast
  then show ?thesis using u(2) by (rule slice_entries_reference)
qed

lemma reference_count:
  assumes "\<forall>f\<in>set fs. fi_is_reference f = (fi_nal_type f = 1 \<or> fi_nal_type f = 2 \<or> fi_nal_type f = 5)"
  shows "length (filter (\<lambda>f. fi_nal_type f = 5) fs) +
         length (filter (\<lambda>f. fi_nal_type f \<in> set [1, 2] \<and> fi_is_reference f) fs) =
         length (filter fi_is_reference fs)"
  using assms by (induction fs) auto

text \<open>
  Claim C8. The reference ratio of the summary is the number of reference entries over
  the number of entries, times 100, and 0 for no entries; it is the ratio the summary
  returns. For the slices classified from any buffer, the ratio of
  \<^verbatim>\<open>print_reference_analysis\<close>, reported when there is an entry, is the same
  number. Slices classified reference, reference, non-reference, reference give 75.
\<close>

theorem reference_ratio:
  "summary_ref_ratio ref_frames =
     (if ref_frames = [] then 0
      else real (length (filter fi_is_reference ref_frames)) / real (length ref_frames) * 100) \<and>
   map_option rr_ref_ratio
     (print_reference_analysis (analyze_reference_frames (parse_nal_units buf))) =
     (if rd_frames (analyze_reference_frames (parse_nal_units buf)) = [] then None
      else Some (real (length (filter fi_is_reference
                   (rd_frames (analyze_reference_frames (parse_nal_units buf))))) /
                 real (length (rd_frames (analyze_reference_frames (parse_nal_units buf)))) * 100)) \<and>
   (frame_sizes \<noteq> [] \<and> gops \<noteq> [] \<and> framerate \<noteq> 0 \<longrightarrow>
      map_sum id (map_option sm_ref_ratio) (video_summary frame_sizes gops ref_frames framerate) =
      Inr (Some (summary_ref_ratio ref_frames)))"
proof -
  let ?fs = "rd_frames (analyze_reference_frames (parse_nal_units buf))"
  have 1: "summary_ref_ratio ref_frames =
     (if ref_frames = [] then 0
      else real (length (filter fi_is_reference ref_frames)) / real (length ref_frames) * 100)"
    by (simp add: summary_ref_ratio_def Let_def)
  have c: "length (filter (\<lambda>f. fi_nal_type f = 5) ?fs) +
         length (filter (\<lambda>f. fi_nal_type f \<in> set [1, 2] \<and> fi_is_reference f) ?fs) =
         length (filter fi_is_reference ?fs)"
    by (rule reference_count) (use scanned_frames_reference in blast)
  have 2: "map_option rr_ref_ratio
     (print_reference_analysis (analyze_reference_frames (parse_nal_units buf))) =
     (if ?fs = [] then None
      else Some (real (length (filter fi_is_reference ?fs)) / real (length ?fs) * 100))"
    unfolding print_reference_analysis_def Let_def c by simp
  have 3: "map_sum id (map_option sm_ref_ratio) (video_summary frame_sizes gops ref_frames framerate) =
      Inr (Some (summary_ref_ratio ref_frames))"
    if "frame_sizes \<noteq> [] \<and> gops \<noteq> [] \<and> framerate \<noteq> 0"
    using that by (simp add: video_summary_def Let_def)
  from 1 2 3 show ?thesis by blast
qed

theorem reference_ratio_witness:
  "map (\<lambda>f. (fi_nal_type f, fi_is_reference f))
     (rd_frames (analyze_reference_frames (parse_nal_units
       [0, 0, 1, 0x65, 0x88, 0, 0, 1, 0x41, 0x9A, 0, 0, 1, 0x03, 0xAA, 0, 0, 1, 0x41, 0x9B]))) =
     [(5, True), (1, True), (3, False), (1, True)] \<and>
   map_option rr_ref_ratio
     (print_reference_analysis (analyze_reference_frames (parse_nal_units
       [0, 0, 1, 0x65, 0x88, 0, 0, 1, 0x41, 0x9A, 0, 0, 1, 0x03, 0xAA, 0, 0, 1, 0x41, 0x9B]))) =
     Some 75 \<and>
   summary_ref_ratio
     (rd_frames (analyze_reference_frames (parse_nal_units
       [0, 0, 1, 0x65, 0x88, 0, 0, 1, 0x41, 0x9A, 0, 0, 1, 0x03, 0xAA, 0, 0, 1, 0x41, 0x9B]))) =
     75 \<and>
   summary_ref_ratio [] = 0 \<and>
   map_sum id (map_option sm_ref_ratio)
     (video_summary [1000] [[\<lparr>gf_index = 0, gf_type = ''I'', gf_pts = NA\<rparr>]]
        (rd_frames (analyze_reference_frames (parse_nal_units
          [0, 0, 1, 0x65, 0x88, 0, 0, 1, 0x41, 0x9A, 0, 0, 1, 0x03, 0xAA, 0, 0, 1, 0x41, 0x9B])))
        60) = Inr (Some 75)"
proof -
  let ?B = "[0, 0, 1, 0x65, 0x88, 0, 0, 1, 0x41, 0x9A, 0, 0, 1, 0x03, 0xAA, 0, 0, 1, 0x41, 0x9B] :: byte list"
  let ?fs = "[\<lparr>fi_nal_type = 5, fi_slice_type = Some ''I'', fi_is_reference = True, fi_size = 2\<rparr>,
              \<lparr>fi_nal_type = 1, fi_slice_type = Some ''P/B'', fi_is_reference = True, fi_size = 2\<rparr>,
              \<lparr>fi_nal_type = 3, fi_slice_type = None, fi_is_reference = False, fi_size = 2\<rparr>,
              \<lparr>fi_nal_type = 1, fi_slice_type = Some ''P/B'', fi_is_reference = True, fi_size = 2\<rparr>]"
  have fs: "rd_frames (analyze_reference_frames (parse_nal_units ?B)) = ?fs"
    by code_simp
  have v: "real (length (filter fi_is_reference ?fs)) / real (length ?fs) * 100 = 75"
    by simp
  have ne: "?fs \<noteq> []" by simp
  let ?G = "[[\<lparr>gf_index = 0, gf_type = ''I'', gf_pts = NA\<rparr>]]"
  have h: "[1000 :: int] \<noteq> [] \<and> ?G \<noteq> [] \<and> (60 :: int) \<noteq> 0" by simp
  from reference_ratio [of ?fs ?B "[1000]" ?G 60] h have
    "summary_ref_ratio ?fs = 75 \<and>
     map_option rr_ref_ratio (print_reference_analysis (analyze_reference_frames (parse_nal_units ?B))) = Some 75 \<and>
     map_sum id (map_option sm_ref_ratio) (video_summary [1000] ?G ?fs 60) =
       Inr (Some (summary_ref_ratio ?fs))"
    unfolding fs using v ne by (simp only: if_False simp_thms)
  moreover from reference_ratio [of "[]" ?B "[]" "[]" 0] have "summary_ref_ratio [] = 0" by simp
  ultimately show ?thesis unfolding fs by simp
qed

lemma population_std_eq:
  "population_std xs = sqrt (sum_list (map (\<lambda>x. (x - mean xs) ^ 2) xs) / real (length xs))"
  by (simp add: population_std_def mean_def)

lemma sizes_std:
  "sqrt (sum_list (map (\<lambda>x. (real_of_int x - real_of_int (sum_list zs) / real (length zs)) ^ 2) zs)
         / real (length zs)) = population_std (map real_of_int zs)"
proof -
  have m: "mean (map real_of_int zs) = real_of_int (sum_list zs) / real (length zs)"
    by (simp add: mean_def sum_list_of_int)
  show ?thesis
    unfolding population_std_eq m by (simp add: comp_def)
qed

lemma squares_pos:
  fixes xs :: "real list"
  assumes "x \<in> set xs" "y \<in> set xs" "x \<noteq> y"
  shows "0 < sum_list (map (\<lambda>x. (x - c) ^ 2) xs)"
proof -
  have nn: "0 \<le> v" if "v \<in> set (map (\<lambda>x. (x - c) ^ 2) xs)" for v
    using that by auto
  have "0 \<le> sum_list (map (\<lambda>x. (x - c) ^ 2) xs)" by (rule sum_list_nonneg) (rule nn)
  moreover have "sum_list (map (\<lambda>x. (x - c) ^ 2) xs) \<noteq> 0"
  proof
    assume "sum_list (map (\<lambda>x. (x - c) ^ 2) xs) = 0"
    then have "\<forall>v\<in>set (map (\<lambda>x. (x - c) ^ 2) xs). v = 0"
      using sum_list_nonneg_eq_0_iff [of "map (\<lambda>x. (x - c) ^ 2) xs"] nn by blast
    then have "\<forall>v\<in>set xs. v = c" by simp
    then have "x = c \<and> y = c" using assms(1,2) by blast
    with assms(3) show False by simp
  qed
  ultimately show ?thesis by simp
qed

lemma population_less_sample:
  assumes "x \<in> set xs" "y \<in> set xs" "x \<noteq> y"
  shows "population_std xs < sample_std xs"
proof -
  let ?S = "sum_list (map (\<lambda>x. (x - mean xs) ^ 2) xs)"
  have S: "0 < ?S" by (rule squares_pos [OF assms])
  have "2 \<le> length xs"
  proof (rule ccontr)
    assume "\<not> 2 \<le> length xs"
    then have "length xs \<le> 1" by simp
    then obtain z where "set xs \<subseteq> {z}" by (cases xs) auto
    with assms show False by auto
  qed
  then have n: "0 < real (length xs) - 1" "real (length xs) - 1 < real (length xs)" by simp_all
  have "?S / real (length xs) < ?S / (real (length xs) - 1)"
  proof (rule divide_strict_left_mono [OF n(2) S])
    have "0 < real (length xs)" using n by linarith
    then show "0 < real (length xs) * (real (length xs) - 1)"
      using n(1) by (rule mult_pos_pos)
  qed
  then show ?thesis
    unfolding population_std_eq sample_std_def by simp
qed

lemma stats_i_frame_std:
  assumes "sizes_of ''I'' frames \<noteq> []"
  shows "analyze_quantization_and_motion frames ''i_frame_std'' =
         Some (population_std (map real_of_int (sizes_of ''I'' frames)))"
  using assms unfolding analyze_quantization_and_motion_def sizes_std [symmetric]
  by (simp add: sizes_of_def Let_def)

lemma stats_p_frame_std:
  assumes "sizes_of ''P'' frames \<noteq> []"
  shows "analyze_quantization_and_motion frames ''p_frame_std'' =
         Some (population_std (map real_of_int (sizes_of ''P'' frames)))"
  using assms unfolding analyze_quantization_and_motion_def sizes_std [symmetric]
  by (simp add: sizes_of_def Let_def)

text \<open>
  Claim C9. For the I-frame sizes, and for the P-frame sizes, when there is one, the
  standard deviation in the statistics is the population one (divisor \<open>n\<close>); when two
  of the sizes differ it is not the sample one (divisor \<open>n - 1\<close>).
\<close>

theorem population_standard_deviation:
  "(sizes_of ''I'' frames \<noteq> [] \<longrightarrow>
      analyze_quantization_and_motion frames ''i_frame_std'' =
      Some (population_std (map real_of_int (sizes_of ''I'' frames)))) \<and>
   (sizes_of ''P'' frames \<noteq> [] \<longrightarrow>
      analyze_quantization_and_motion frames ''p_frame_std'' =
      Some (population_std (map real_of_int (sizes_of ''P'' frames)))) \<and>
   ((\<exists>x\<in>set (sizes_of ''I'' frames). \<exists>y\<in>set (sizes_of ''I'' frames). x \<noteq> y) \<longrightarrow>
      analyze_quantization_and_motion frames ''i_frame_std'' \<noteq>
      Some (sample_std (map real_of_int (sizes_of ''I'' frames)))) \<and>
   ((\<exists>x\<in>set (sizes_of ''P'' frames). \<exists>y\<in>set (sizes_of ''P'' frames). x \<noteq> y) \<longrightarrow>
      analyze_quantization_and_motion frames ''p_frame_std'' \<noteq>
      Some (sample_std (map real_of_int (sizes_of ''P'' frames))))"
proof -
  have differ: "population_std (map real_of_int zs) \<noteq> sample_std (map real_of_int zs)"
    if "\<exists>x\<in>set zs. \<exists>y\<in>set zs. x \<noteq> y" for zs :: "int list"
  proof -
    from that obtain x y where "x \<in> set zs" "y \<in> set zs" "x \<noteq> y" by blast
    then have "real_of_int x \<in> set (map real_of_int zs)" "real_of_int y \<in> set (map real_of_int zs)"
      "real_of_int x \<noteq> real_of_int y" by simp_all
    from population_less_sample [OF this] show ?thesis by simp
  qed
  have ne: "zs \<noteq> []" if "\<exists>x\<in>set zs. \<exists>y\<in>set zs. x \<noteq> y" for zs :: "int list"
    using that by auto
  show ?thesis
  proof (intro conjI impI)
    assume "sizes_of ''I'' frames \<noteq> []"
    then show "analyze_quantization_and_motion frames ''i_frame_std'' =
      Some (population_std (map real_of_int (sizes_of ''I'' frames)))"
      by (rule stats_i_frame_std)
  next
    assume "sizes_of ''P'' frames \<noteq> []"
    then show "analyze_quantization_and_motion frames ''p_frame_std'' =
      Some (population_std (map real_of_int (sizes_of ''P'' frames)))"
      by (rule stats_p_frame_std)
  next
    assume a: "\<exists>x\<in>set (sizes_of ''I'' frames). \<exists>y\<in>set (sizes_of ''I'' frames). x \<noteq> y"
    show "analyze_quantization_and_motion frames ''i_frame_std'' \<noteq>
      Some (sample_std (map real_of_int (sizes_of ''I'' frames)))"
      unfolding stats_i_frame_std [OF ne [OF a]] using differ [OF a] by simp
  next
    assume a: "\<exists>x\<in>set (sizes_of ''P'' frames). \<exists>y\<in>set (sizes_of ''P'' frames). x \<noteq> y"
    show "analyze_quantization_and_motion frames ''p_frame_std'' \<noteq>
      Some (sample_std (map real_of_int (sizes_of ''P'' frames)))"
      unfolding stats_p_frame_std [OF ne [OF a]] using differ [OF a] by simp
  qed
qed

theorem population_standard_deviation_witness:
  "analyze_quantization_and_motion
     [\<lparr>fr_pict_type = Some ''I'', fr_pts = None, fr_pkt_size = Some 2\<rparr>,
      \<lparr>fr_pict_type = Some ''P'', fr_pts = None, fr_pkt_size = Some 1\<rparr>,
      \<lparr>fr_pict_type = Some ''I'', fr_pts = None, fr_pkt_size = Some 4\<rparr>,
      \<lparr>fr_pict_type = Some ''P'', fr_pts = None, fr_pkt_size = Some 3\<rparr>] ''i_frame_std'' = Some 1 \<and>
   analyze_quantization_and_motion
     [\<lparr>fr_pict_type = Some ''I'', fr_pts = None, fr_pkt_size = Some 2\<rparr>,
      \<lparr>fr_pict_type = Some ''P'', fr_pts = None, fr_pkt_size = Some 1\<rparr>,
      \<lparr>fr_pict_type = Some ''I'', fr_pts = None, fr_pkt_size = Some 4\<rparr>,
      \<lparr>fr_pict_type = Some ''P'', fr_pts = None, fr_pkt_size = Some 3\<rparr>] ''p_frame_std'' = Some 1 \<and>
   sample_std [2, 4] = sqrt 2 \<and>
   analyze_quantization_and_motion
     [\<lparr>fr_pict_type = Some ''I'', fr_pts = None, fr_pkt_size = Some 2\<rparr>,
      \<lparr>fr_pict_type = Some ''P'', fr_pts = None, fr_pkt_size = Some 1\<rparr>,
      \<lparr>fr_pict_type = Some ''I'', fr_pts = None, fr_pkt_size = Some 4\<rparr>,
      \<lparr>fr_pict_type = Some ''P'', fr_pts = None, fr_pkt_size = Some 3\<rparr>] ''i_frame_std'' \<noteq>
     Some (sample_std [2, 4])"
proof -
  let ?F = "[\<lparr>fr_pict_type = Some ''I'', fr_pts = None, fr_pkt_size = Some 2\<rparr>,
      \<lparr>fr_pict_type = Some ''P'', fr_pts = None, fr_pkt_size = Some 1\<rparr>,
      \<lparr>fr_pict_type = Some ''I'', fr_pts = None, fr_pkt_size = Some 4\<rparr>,
      \<lparr>fr_pict_type = Some ''P'', fr_pts = None, fr_pkt_size = Some 3\<rparr>]"
  have i: "sizes_of ''I'' ?F = [2, 4]" by (simp add: sizes_of_def)
  have p: "sizes_of ''P'' ?F = [1, 3]" by (simp add: sizes_of_def)
  have pi: "population_std [2, 4] = 1"
    by (simp add: population_std_def mean_def)
  have pp: "population_std [1, 3] = 1"
    by (simp add: population_std_def mean_def)
  have s: "sample_std [2, 4] = sqrt 2"
    by (simp add: sample_std_def mean_def)
  have m: "map real_of_int [2, 4] = [2, 4]" "map real_of_int [1, 3] = [1, 3]" by simp_all
  have hi: "[2, 4 :: int] \<noteq> []" and hp: "[1, 3 :: int] \<noteq> []"
    by simp_all
  have di: "\<exists>x\<in>set [2, 4 :: int]. \<exists>y\<in>set [2, 4 :: int]. x \<noteq> y"
    by (intro bexI [of _ 2] bexI [of _ 4]) simp_all
  note t = population_standard_deviation [of ?F, unfolded i p pi pp m]
  from t hi have 1: "analyze_quantization_and_motion ?F ''i_frame_std'' = Some 1" by blast
  from t hp have 2: "analyze_quantization_and_motion ?F ''p_frame_std'' = Some 1" by blast
  from t di have 3: "analyze_quantization_and_motion ?F ''i_frame_std'' \<noteq> Some (sample_std [2, 4])"
    by blast
  from 1 2 s 3 show ?thesis by (intro conjI)
qed

end
